theory Spec2Isabelle
  imports Complex_Main "HOL-Library.Word"
begin

section \<open>Data model\<close>

text \<open>
  A JavaScript \<open>number\<close> is either a finite value or one of the three non-finite
  values. Finite values are modelled as exact reals: the development is about the
  arithmetic the code writes down, not about IEEE rounding.
\<close>

datatype jsnumber = Num real | NaN | PosInfinity | NegInfinity

datatype FootageType = image_footage | video_footage

text \<open>
  \<open>interface Scene\<close> of \<open>types.ts\<close>. The field \<open>id\<close> is called \<open>scene_id\<close> here
  (\<open>id\<close> is the identity function of HOL) and \<open>keywords\<close> is \<open>scene_keywords\<close>;
  \<open>kenBurnsConfig\<close> only feeds the canvas drawing routine and is left out.
\<close>

record Scene =
  scene_id :: string
  sceneText :: string
  scene_keywords :: "string list"
  imagePrompt :: string
  duration :: jsnumber
  footageUrl :: string
  footageType :: FootageType

datatype RenderMode = preview | download

record SceneRenderPlanItem =
  scene :: Scene
  durationSeconds :: real
  frameCount :: int

section \<open>Render timing\<close>

text \<open>
  The module the renderers import as \<open>renderTiming.ts\<close>; its text is the second part
  of \<open>src/services/imagePreloadService.ts\<close>.
\<close>

definition PREVIEW_MIN_SCENE_DURATION_SECONDS :: real where
  "PREVIEW_MIN_SCENE_DURATION_SECONDS = 75 / 100"

definition PREVIEW_MAX_TOTAL_DURATION_SECONDS :: real where
  "PREVIEW_MAX_TOTAL_DURATION_SECONDS = 15"

text \<open>The constant \<open>epsilon = 1e-3\<close> local to \<open>clampDurationsWithMinimums\<close>.\<close>

definition epsilon :: real where
  "epsilon = 1 / 1000"

text \<open>\<open>Number.isFinite(value) && value > 0\<close>.\<close>

fun isFinitePositive :: "jsnumber \<Rightarrow> bool" where
  "isFinitePositive (Num x) = (0 < x)"
| "isFinitePositive NaN = False"
| "isFinitePositive PosInfinity = False"
| "isFinitePositive NegInfinity = False"

fun sanitiseDuration :: "jsnumber \<Rightarrow> real" where
  "sanitiseDuration (Num x) = (if x \<le> 0 then 0 else x)"
| "sanitiseDuration NaN = 0"
| "sanitiseDuration PosInfinity = 0"
| "sanitiseDuration NegInfinity = 0"

text \<open>
  The indices whose value still has more than \<open>epsilon\<close> of slack above its minimum
  (the \<open>map\<close>/\<open>filter\<close> chain at the head of the loop body).
\<close>

definition adjustableIndices :: "real list \<Rightarrow> real list \<Rightarrow> nat list" where
  "adjustableIndices adjusted minimums =
     filter (\<lambda>index. adjusted ! index - minimums ! index > epsilon) [0..<length adjusted]"

text \<open>
  The inner \<open>for (const { index } of adjustableIndices)\<close> loop: the array and the
  running \<open>consumed\<close> are threaded through.
\<close>

fun reduceAdjustable ::
  "nat list \<Rightarrow> real list \<Rightarrow> real \<Rightarrow> real list \<Rightarrow> real \<Rightarrow> real list \<times> real" where
  "reduceAdjustable [] minimums decrement adjusted consumed = (adjusted, consumed)"
| "reduceAdjustable (index # rest) minimums decrement adjusted consumed =
     (let maxReduction = adjusted ! index - minimums ! index in
      if maxReduction \<le> 0 then reduceAdjustable rest minimums decrement adjusted consumed
      else
        let reduction = min maxReduction decrement in
        if reduction \<le> 0 then reduceAdjustable rest minimums decrement adjusted consumed
        else reduceAdjustable rest minimums decrement
               (adjusted[index := adjusted ! index - reduction]) (consumed + reduction))"

text \<open>
  The \<open>while (total - targetTotal > epsilon && iterations < 1000)\<close> loop. The first
  argument is the number of iterations still allowed, \<open>1000 - iterations\<close>. The result
  is the array and the variable \<open>total\<close> (here \<open>currentTotal\<close>) as the loop leaves
  them; on the \<open>consumed <= epsilon\<close> exit the array has been written but \<open>total\<close>
  has not.
\<close>

fun clampLoop :: "nat \<Rightarrow> real list \<Rightarrow> real \<Rightarrow> real list \<Rightarrow> real \<Rightarrow> real list \<times> real" where
  "clampLoop 0 minimums targetTotal adjusted currentTotal = (adjusted, currentTotal)"
| "clampLoop (Suc remaining) minimums targetTotal adjusted currentTotal =
     (if currentTotal - targetTotal > epsilon then
        let indices = adjustableIndices adjusted minimums in
        if length indices = 0 then (adjusted, currentTotal)
        else
          let excess = currentTotal - targetTotal;
              decrement = excess / real (length indices);
              (adjusted', consumed) = reduceAdjustable indices minimums decrement adjusted 0
          in if consumed \<le> epsilon then (adjusted', currentTotal)
             else clampLoop remaining minimums targetTotal adjusted' (currentTotal - consumed)
      else (adjusted, currentTotal))"

text \<open>
  \<open>clampDurationsWithMinimums\<close>. Its only caller passes \<open>minimums\<close> of the length of
  \<open>durations\<close>.
\<close>

definition clampDurationsWithMinimums :: "real list \<Rightarrow> real list \<Rightarrow> real \<Rightarrow> real list" where
  "clampDurationsWithMinimums durations minimums targetTotal =
     (if length durations = 0 then durations
      else
        let total = sum_list durations in
        if total \<le> targetTotal then durations
        else
          let (adjusted, total') = clampLoop 1000 minimums targetTotal durations total in
          if total' > targetTotal then
            let scale = targetTotal / total' in
            map (\<lambda>i. max (minimums ! i) (adjusted ! i * scale)) [0..<length adjusted]
          else adjusted)"

definition computeEffectiveDurations :: "Scene list \<Rightarrow> RenderMode \<Rightarrow> real list" where
  "computeEffectiveDurations scenes mode =
     (if mode \<noteq> preview then map (\<lambda>s. sanitiseDuration (duration s)) scenes
      else if length scenes = 0 then []
      else
        let sanitisedDurations = map (\<lambda>s. sanitiseDuration (duration s)) scenes;
            totalOriginalDuration = sum_list sanitisedDurations
        in
        if totalOriginalDuration \<le> 0 then replicate (length scenes) 0
        else if totalOriginalDuration \<le> PREVIEW_MAX_TOTAL_DURATION_SECONDS then sanitisedDurations
        else
          let scaledDurations =
                map (\<lambda>value. if value \<le> 0 then 0
                             else (value / totalOriginalDuration) * PREVIEW_MAX_TOTAL_DURATION_SECONDS)
                    sanitisedDurations;
              positiveDurationCount = length (filter (\<lambda>value. value > 0) sanitisedDurations);
              dynamicMinimum =
                (if positiveDurationCount > 0
                 then min PREVIEW_MIN_SCENE_DURATION_SECONDS
                          (PREVIEW_MAX_TOTAL_DURATION_SECONDS / real positiveDurationCount)
                 else 0);
              minimums = map (\<lambda>value. if value > 0 then dynamicMinimum else 0) sanitisedDurations;
              clamped =
                map (\<lambda>index. if minimums ! index = 0 then 0
                              else max (minimums ! index) (scaledDurations ! index))
                    [0..<length scaledDurations]
          in clampDurationsWithMinimums clamped minimums PREVIEW_MAX_TOTAL_DURATION_SECONDS)"

text \<open>
  \<open>buildRenderPlan\<close>. \<open>safeDuration\<close> is the conditional expression that gives
  \<open>safeDurationSeconds\<close>; \<open>effectiveDurations[index] ?? 0\<close> reads 0 past the end of the
  array; \<open>Math.ceil\<close> of a finite number is its ceiling.
\<close>

definition safeDuration :: "real \<Rightarrow> real \<Rightarrow> RenderMode \<Rightarrow> real" where
  "safeDuration durationSecondsRaw fps mode =
     (if durationSecondsRaw > 1 / 100 then durationSecondsRaw
      else if mode = preview then PREVIEW_MIN_SCENE_DURATION_SECONDS
      else max (12 / 10) (1 / fps))"

definition buildRenderPlan :: "Scene list \<Rightarrow> real \<Rightarrow> RenderMode \<Rightarrow> SceneRenderPlanItem list" where
  "buildRenderPlan scenes fps mode =
     (let effectiveDurations = computeEffectiveDurations scenes mode in
      map (\<lambda>index.
             let durationSecondsRaw =
                   (if index < length effectiveDurations then effectiveDurations ! index else 0);
                 safeDurationSeconds = safeDuration durationSecondsRaw fps mode;
                 frameCount = max 1 \<lceil>safeDurationSeconds * fps\<rceil>
             in \<lparr> scene = scenes ! index,
                  durationSeconds = safeDurationSeconds,
                  frameCount = frameCount \<rparr>)
          [0..<length scenes])"

text \<open>
  The quantities the timing claims speak about: the number of scenes whose sanitised
  duration is positive (\<open>positiveDurationCount\<close>), the per-scene minimum computed from it
  (\<open>dynamicMinimum\<close>), and the arrays \<open>minimums\<close> and \<open>clamped\<close> that
  \<open>computeEffectiveDurations\<close> hands to \<open>clampDurationsWithMinimums\<close>, each as a function
  of the scene list.
\<close>

definition positiveSceneCount :: "Scene list \<Rightarrow> nat" where
  "positiveSceneCount scenes = length (filter (\<lambda>s. sanitiseDuration (duration s) > 0) scenes)"

definition computedMinimum :: "Scene list \<Rightarrow> real" where
  "computedMinimum scenes =
     min PREVIEW_MIN_SCENE_DURATION_SECONDS
         (PREVIEW_MAX_TOTAL_DURATION_SECONDS / real (positiveSceneCount scenes))"

definition sceneMinimums :: "Scene list \<Rightarrow> real list" where
  "sceneMinimums scenes =
     map (\<lambda>s. if sanitiseDuration (duration s) > 0 then computedMinimum scenes else 0) scenes"

definition clampedDurations :: "Scene list \<Rightarrow> real list" where
  "clampedDurations scenes =
     map (\<lambda>s. if sanitiseDuration (duration s) > 0
               then max (computedMinimum scenes)
                        (sanitiseDuration (duration s) / (\<Sum>s\<leftarrow>scenes. sanitiseDuration (duration s))
                           * PREVIEW_MAX_TOTAL_DURATION_SECONDS)
               else 0) scenes"

text \<open>
  The relation between an array and a later state of it that every pass of the
  redistribution keeps: same length, no entry raised, no entry taken below its minimum,
  and an entry already at or below its minimum left alone.
\<close>

definition lowered :: "real list \<Rightarrow> real list \<Rightarrow> real list \<Rightarrow> bool" where
  "lowered minimums a a' \<longleftrightarrow>
     length a' = length a \<and>
     (\<forall>i<length a. a' ! i \<le> a ! i \<and>
                    (minimums ! i \<le> a ! i \<longrightarrow> minimums ! i \<le> a' ! i) \<and>
                    (a ! i \<le> minimums ! i \<longrightarrow> a' ! i = a ! i))"

section \<open>Frame timestamps of the WebCodecs renderer\<close>

text \<open>
  From here on the code is that of the renderer module, the second part of
  \<open>src/services/progressiveVideoService.ts\<close>.
\<close>

text \<open>\<open>Math.round\<close> rounds to the nearest integer, a half upwards.\<close>

definition js_round :: "real \<Rightarrow> int" where
  "js_round x = \<lfloor>x + 1 / 2\<rfloor>"

text \<open>\<open>const frameDurationUS = Math.round(1_000_000 / config.fps)\<close>.\<close>

definition frameDurationUS :: "real \<Rightarrow> int" where
  "frameDurationUS fps = js_round (1000000 / fps)"

text \<open>
  The frame submission loop of \<open>generateVideoWithWebCodecs\<close>, reduced to what it hands
  to the encoder: the inner loop over the frames of one scene and the outer loop over
  the render plan, with the counter \<open>totalFramesRenderedOverall\<close> threaded through.
  The result is the list of \<open>timestamp\<close> values of the \<open>VideoFrame\<close>s in the order of
  \<open>encoder.encode\<close>. A cancelled or failing render submits a prefix of it.
\<close>

fun encodeSceneFrames :: "int \<Rightarrow> nat \<Rightarrow> nat \<Rightarrow> int list" where
  "encodeSceneFrames frameDuration 0 totalFramesRenderedOverall = []"
| "encodeSceneFrames frameDuration (Suc framesLeft) totalFramesRenderedOverall =
     (int totalFramesRenderedOverall * frameDuration)
       # encodeSceneFrames frameDuration framesLeft (Suc totalFramesRenderedOverall)"

fun encodePlan :: "int \<Rightarrow> SceneRenderPlanItem list \<Rightarrow> nat \<Rightarrow> int list" where
  "encodePlan frameDuration [] totalFramesRenderedOverall = []"
| "encodePlan frameDuration (planItem # rest) totalFramesRenderedOverall =
     (let numFramesForScene = nat (frameCount planItem) in
      encodeSceneFrames frameDuration numFramesForScene totalFramesRenderedOverall
        @ encodePlan frameDuration rest (totalFramesRenderedOverall + numFramesForScene))"

definition submittedTimestamps :: "Scene list \<Rightarrow> real \<Rightarrow> RenderMode \<Rightarrow> int list" where
  "submittedTimestamps scenes fps mode =
     encodePlan (frameDurationUS fps) (buildRenderPlan scenes fps mode) 0"

section \<open>Scene accent colour and fallback art\<close>

definition ACCENT_COLOR_PALETTE :: "string list" where
  "ACCENT_COLOR_PALETTE =
     [''#FF5F6D'', ''#FF9966'', ''#FDCB6E'', ''#54A0FF'', ''#5F27CD'',
      ''#48DB71'', ''#FF6B6B'', ''#1B9CFC'', ''#FF9FF3'', ''#10AC84'']"

text \<open>
  \<open>sceneAccentHash\<close>: \<open>hash = (hash << 5) - hash + value.charCodeAt(i); hash |= 0\<close>.
  The variable is a 32-bit integer after every step, so the loop is a left fold over
  32-bit words; the function returns the signed reading. Strings are lists of
  \<open>char\<close>, whose codes are below 256.
\<close>

definition sceneAccentHash :: "string \<Rightarrow> int" where
  "sceneAccentHash value =
     sint (foldl (\<lambda>hash c. push_bit 5 hash - hash + of_nat (of_char c)) (0 :: 32 word) value)"

text \<open>\<open>Array.prototype.join\<close>.\<close>

fun join :: "string \<Rightarrow> string list \<Rightarrow> string" where
  "join separator [] = []"
| "join separator [x] = x"
| "join separator (x # y # rest) = x @ separator @ join separator (y # rest)"

text \<open>
  \<open>computeSceneAccentColor\<close>. From here on a parameter \<open>scene\<close> of the source is written
  \<open>scene'\<close>, \<open>scene\<close> being the field of the plan item. The fields of \<open>Scene\<close> are
  declared non-optional, so the \<open>?.\<close> and \<open>??\<close> of the template string never take
  their default. The hash is non-negative after \<open>Math.abs\<close> and the palette has ten
  entries.
\<close>

definition computeSceneAccentColor :: "Scene \<Rightarrow> string" where
  "computeSceneAccentColor scene' =
     (let key = scene_id scene' @ ''|'' @ join ''-'' (scene_keywords scene') @ ''|''
                  @ imagePrompt scene' @ ''|'' @ sceneText scene';
          hash = \<bar>sceneAccentHash key\<bar>
      in ACCENT_COLOR_PALETTE ! nat (hash mod int (length ACCENT_COLOR_PALETTE)))"

datatype AspectRatio = ratio_16_9 | ratio_9_16

text \<open>
  What a load in the preloader can yield: the decoded image of a source, the stylized
  fallback (a gradient and stripes drawn from the accent colour on a canvas of the given
  size), or the 1x1 gray pixel used when no 2D context can be had.
\<close>

datatype ImageElement =
    LoadedImage string
  | StylizedFallback string int int
  | GrayPixel

text \<open>
  \<open>createStylizedFallbackImage\<close>; \<open>contextAvailable\<close> says whether
  \<open>canvas.getContext('2d')\<close> returns a context.
\<close>

definition createStylizedFallbackImage :: "bool \<Rightarrow> Scene \<Rightarrow> AspectRatio \<Rightarrow> ImageElement" where
  "createStylizedFallbackImage contextAvailable scene' aspectRatio =
     (let width = (if aspectRatio = ratio_16_9 then 1280 else js_round (1280 * 9 / 16));
          height = (if aspectRatio = ratio_16_9 then js_round ((real_of_int width * 9) / 16) else 1280)
      in if \<not> contextAvailable then GrayPixel
         else StylizedFallback (computeSceneAccentColor scene') width height)"

datatype render_error = AbortError | Error string

text \<open>
  One pass through the body of the retry loop, as the environment decides it: the image
  loads, the load fails with an ordinary error, or one of the \<open>throwIfAborted\<close> checks or
  the abort listener raises the \<open>AbortError\<close>.
\<close>

datatype attempt_outcome = AttemptLoaded | AttemptFailed | AttemptAborted

definition IMAGE_LOAD_RETRIES :: nat where
  "IMAGE_LOAD_RETRIES = 2"

definition INITIAL_RETRY_DELAY_MS :: nat where
  "INITIAL_RETRY_DELAY_MS = 300"

text \<open>
  The \<open>for (attempt = 0; attempt <= IMAGE_LOAD_RETRIES; attempt++)\<close> loop of
  \<open>loadImageWithRetries\<close>. The first argument counts the iterations left. The result
  pairs the back-off delays slept, in order, with what the function returns or throws.
\<close>

fun loadAttempts ::
  "nat \<Rightarrow> nat \<Rightarrow> (nat \<Rightarrow> attempt_outcome) \<Rightarrow> bool \<Rightarrow> string \<Rightarrow> Scene \<Rightarrow> AspectRatio
     \<Rightarrow> nat list \<times> (render_error + ImageElement)" where
  "loadAttempts 0 attempt outcomes contextAvailable src scene' aspectRatio =
     ([], Inr (createStylizedFallbackImage contextAvailable scene' aspectRatio))"
| "loadAttempts (Suc remaining) attempt outcomes contextAvailable src scene' aspectRatio =
     (case outcomes attempt of
        AttemptLoaded \<Rightarrow> ([], Inr (LoadedImage src))
      | AttemptAborted \<Rightarrow> ([], Inl AbortError)
      | AttemptFailed \<Rightarrow>
          if attempt < IMAGE_LOAD_RETRIES then
            let delay = INITIAL_RETRY_DELAY_MS * 2 ^ attempt;
                (delays, result) =
                  loadAttempts remaining (Suc attempt) outcomes contextAvailable src scene' aspectRatio
            in (delay # delays, result)
          else ([], Inr (createStylizedFallbackImage contextAvailable scene' aspectRatio)))"

definition loadImageWithRetries ::
  "(nat \<Rightarrow> attempt_outcome) \<Rightarrow> bool \<Rightarrow> string \<Rightarrow> Scene \<Rightarrow> AspectRatio
     \<Rightarrow> nat list \<times> (render_error + ImageElement)" where
  "loadImageWithRetries outcomes contextAvailable src scene' aspectRatio =
     (if src = [] then ([], Inr (createStylizedFallbackImage contextAvailable scene' aspectRatio))
      else loadAttempts (IMAGE_LOAD_RETRIES + 1) 0 outcomes contextAvailable src scene' aspectRatio)"

section \<open>Progress reports of a render\<close>

text \<open>
  \<open>updateOverallProgress\<close> is the same closure in both renderers; the value is what it
  passes to \<open>onProgressCallback\<close>.
\<close>

definition updateOverallProgress :: "real \<Rightarrow> real \<Rightarrow> real \<Rightarrow> real" where
  "updateOverallProgress stageProgress stageWeight baseProgress =
     min (99 / 100) (baseProgress + stageProgress * stageWeight)"

text \<open>
  The values \<open>preloadAllImages\<close> passes to its \<open>onProgress\<close> for \<open>n\<close> scenes: 0 before
  the workers start, \<open>completed / scenes.length\<close> after each scene (the counter
  \<open>completed\<close> is shared by the workers and only grows), and 1 at the end.
\<close>

definition preloadProgressValues :: "nat \<Rightarrow> real list" where
  "preloadProgressValues n =
     0 # map (\<lambda>completed. real completed / real n) [1..<Suc n] @ [1]"

text \<open>
  Every value a renderer reports when nothing fails and nothing is cancelled, in order:
  the preload stage (weight 0.2, base 0), one report per frame
  (\<open>totalFramesRenderedOverall / totalFramesToRenderOverall\<close>, weight 0.79, base 0.20,
  only when there is a frame to render), and the final \<open>onProgressCallback(1)\<close>.
\<close>

definition renderProgressValues :: "Scene list \<Rightarrow> real \<Rightarrow> RenderMode \<Rightarrow> real list" where
  "renderProgressValues scenes fps mode =
     (let renderPlan = buildRenderPlan scenes fps mode;
          totalFramesToRenderOverall = sum_list (map frameCount renderPlan)
      in map (\<lambda>val. updateOverallProgress val (2 / 10) 0) (preloadProgressValues (length scenes))
         @ (if totalFramesToRenderOverall > 0
            then map (\<lambda>totalFramesRenderedOverall.
                        updateOverallProgress
                          (real totalFramesRenderedOverall / real_of_int totalFramesToRenderOverall)
                          (79 / 100) (20 / 100))
                     [1..<Suc (nat totalFramesToRenderOverall)]
            else [])
         @ [1])"

section \<open>Render configuration\<close>

record RenderConfig =
  fps :: real
  maxLandscapeWidth :: real
  maxPortraitHeight :: real
  bitrate :: real

definition getRenderConfig :: "RenderMode \<Rightarrow> RenderConfig" where
  "getRenderConfig renderMode =
     (case renderMode of
        preview \<Rightarrow> \<lparr> fps = 15, maxLandscapeWidth = 854, maxPortraitHeight = 960, bitrate = 1200000 \<rparr>
      | download \<Rightarrow> \<lparr> fps = 24, maxLandscapeWidth = 1280, maxPortraitHeight = 1280, bitrate = 3500000 \<rparr>)"

definition MIN_EFFECTIVE_FPS :: real where "MIN_EFFECTIVE_FPS = 4"
definition MIN_DOWNLOAD_FPS :: real where "MIN_DOWNLOAD_FPS = 8"
definition MIN_PREVIEW_FPS :: real where "MIN_PREVIEW_FPS = 10"
definition PREVIEW_FRAME_BUDGET :: real where "PREVIEW_FRAME_BUDGET = 3000"
definition DOWNLOAD_FRAME_BUDGET :: real where "DOWNLOAD_FRAME_BUDGET = 4500"
definition LONG_FORM_DURATION_THRESHOLD_SECONDS :: real where "LONG_FORM_DURATION_THRESHOLD_SECONDS = 120"
definition ULTRA_LONG_DURATION_THRESHOLD_SECONDS :: real where "ULTRA_LONG_DURATION_THRESHOLD_SECONDS = 300"
definition LONG_FORM_LANDSCAPE_LIMIT :: real where "LONG_FORM_LANDSCAPE_LIMIT = 1120"
definition ULTRA_LONG_LANDSCAPE_LIMIT :: real where "ULTRA_LONG_LANDSCAPE_LIMIT = 960"
definition LONG_FORM_PORTRAIT_LIMIT :: real where "LONG_FORM_PORTRAIT_LIMIT = 1120"
definition ULTRA_LONG_PORTRAIT_LIMIT :: real where "ULTRA_LONG_PORTRAIT_LIMIT = 960"
definition LONG_FORM_BITRATE_LIMIT :: real where "LONG_FORM_BITRATE_LIMIT = 3000000"
definition ULTRA_LONG_BITRATE_LIMIT :: real where "ULTRA_LONG_BITRATE_LIMIT = 2200000"
definition MIN_DOWNLOAD_BITRATE :: real where "MIN_DOWNLOAD_BITRATE = 900000"
definition MIN_PREVIEW_BITRATE :: real where "MIN_PREVIEW_BITRATE = 700000"

text \<open>A duration that is not a finite number counts 0, a negative one counts 0.\<close>

fun rawDuration :: "jsnumber \<Rightarrow> real" where
  "rawDuration (Num x) = x"
| "rawDuration NaN = 0"
| "rawDuration PosInfinity = 0"
| "rawDuration NegInfinity = 0"

definition computeTotalSceneDurationSeconds :: "Scene list \<Rightarrow> real" where
  "computeTotalSceneDurationSeconds scenes =
     foldl (\<lambda>total s. total + max 0 (rawDuration (duration s))) 0 scenes"

definition resolveOptimizedRenderConfig :: "RenderMode \<Rightarrow> Scene list \<Rightarrow> RenderConfig" where
  "resolveOptimizedRenderConfig renderMode scenes =
     (let baseConfig = getRenderConfig renderMode;
          totalDuration = computeTotalSceneDurationSeconds scenes
      in if totalDuration \<le> 0 then baseConfig
         else
           let frameBudget = (if renderMode = download then DOWNLOAD_FRAME_BUDGET else PREVIEW_FRAME_BUDGET);
               minFps = (if renderMode = download then MIN_DOWNLOAD_FPS else MIN_PREVIEW_FPS);
               minBitrate = (if renderMode = download then MIN_DOWNLOAD_BITRATE else MIN_PREVIEW_BITRATE);
               baseTotalFrames = totalDuration * fps baseConfig;
               allowedFpsRaw = real_of_int \<lfloor>frameBudget / totalDuration\<rfloor>;
               allowedFps = max minFps (min (fps baseConfig) allowedFpsRaw);
               c1 = (if baseTotalFrames > frameBudget \<and> allowedFps < fps baseConfig
                     then baseConfig
                            \<lparr> fps := max MIN_EFFECTIVE_FPS allowedFps,
                              bitrate := max minBitrate
                                (real_of_int (js_round (bitrate baseConfig
                                   * (max MIN_EFFECTIVE_FPS allowedFps / fps baseConfig)))) \<rparr>
                     else baseConfig);
               c2 = (if totalDuration > LONG_FORM_DURATION_THRESHOLD_SECONDS
                     then c1 \<lparr> maxLandscapeWidth := min (maxLandscapeWidth baseConfig) LONG_FORM_LANDSCAPE_LIMIT,
                              maxPortraitHeight := min (maxPortraitHeight baseConfig) LONG_FORM_PORTRAIT_LIMIT,
                              bitrate := min (bitrate c1) LONG_FORM_BITRATE_LIMIT \<rparr>
                     else c1);
               c3 = (if totalDuration > ULTRA_LONG_DURATION_THRESHOLD_SECONDS
                     then c2 \<lparr> maxLandscapeWidth := min (maxLandscapeWidth c2) ULTRA_LONG_LANDSCAPE_LIMIT,
                              maxPortraitHeight := min (maxPortraitHeight c2) ULTRA_LONG_PORTRAIT_LIMIT,
                              bitrate := min (bitrate c2) ULTRA_LONG_BITRATE_LIMIT \<rparr>
                     else c2)
           in c3 \<lparr> bitrate := max minBitrate (bitrate c3),
                   fps := max MIN_EFFECTIVE_FPS (min (fps baseConfig) (fps c3)) \<rparr>)"

section \<open>The two renderers and the entry point\<close>

record VideoRenderOptions =
  includeWatermark :: bool
  mode :: "RenderMode option"

datatype VideoFormat = webm | mp4

text \<open>\<open>GeneratedVideoResult\<close> without the bytes of the blob.\<close>

record GeneratedVideoResult =
  mimeType :: string
  format :: VideoFormat

text \<open>
  What \<open>hasWebCodecsSupport\<close> and the first checks of the MediaRecorder renderer read
  from the browser.
\<close>

record Environment =
  windowDefined :: bool
  videoEncoderIsFunction :: bool
  videoFrameIsFunction :: bool
  mediaRecorderDefined :: bool
  captureStreamDefined :: bool

definition hasWebCodecsSupport :: "Environment \<Rightarrow> bool" where
  "hasWebCodecsSupport env =
     (if \<not> windowDefined env then False
      else videoEncoderIsFunction env \<and> videoFrameIsFunction env)"

text \<open>
  The renderers are asynchronous and talk to the browser; what a caller observes of one
  run is the list of values passed to \<open>onProgressCallback\<close> and how the promise settles.
  The browser's part in one run is given as a script:
  \<^item> \<open>canvasContextAvailable\<close>: \<open>canvas.getContext('2d')\<close> returns a context;
  \<^item> \<open>abortAfter = Some k\<close>: the cancellation signal is aborted once \<open>k\<close> reports have
    been made (\<open>Some 0\<close>: it is aborted when the run starts);
  \<^item> \<open>failureAfter = Some k\<close>: after \<open>k\<close> reports something other than a cancellation
    throws (\<open>encoder.configure\<close>, \<open>encoder.encode\<close>, the encoder's error callback, the
    muxer, the recorder's \<open>onerror\<close>), with \<open>failureMessage\<close>;
  \<^item> \<open>produced\<close>: the result the run resolves with when it gets to the end.
\<close>

record RunScript =
  canvasContextAvailable :: bool
  abortAfter :: "nat option"
  failureAfter :: "nat option"
  failureMessage :: string
  produced :: GeneratedVideoResult

record BackendRun =
  reported :: "real list"
  settled :: "render_error + GeneratedVideoResult"

text \<open>
  The body of a renderer from \<open>preloadAllImages\<close> on. The reports are made in the order
  of \<open>renderProgressValues\<close>, and the run stops at the first exception. The first
  report, \<open>onProgress('Preloading images...', 0)\<close>, comes before the first
  \<open>throwIfAborted\<close>, so a signal that is aborted from the start is seen after one report;
  after that a check (\<open>throwIfAborted\<close>, the abort listener, the test at the head of
  \<open>renderFrame\<close>) stands between any two reports, and a cancellation seen there rejects
  with the \<open>AbortError\<close>. The final report is followed by \<open>resolve\<close> at once.
\<close>

definition runFromPreload :: "real list \<Rightarrow> RunScript \<Rightarrow> BackendRun" where
  "runFromPreload reports script =
     (let abortPoint =
            (case abortAfter script of
               None \<Rightarrow> None
             | Some a \<Rightarrow> if max 1 a < length reports then Some (max 1 a) else None);
          failurePoint =
            (case failureAfter script of
               None \<Rightarrow> None
             | Some f \<Rightarrow> if f < length reports then Some f else None)
      in case abortPoint of
           Some a \<Rightarrow>
             (case failurePoint of
                Some f \<Rightarrow>
                  if a \<le> f then \<lparr> reported = take a reports, settled = Inl AbortError \<rparr>
                  else \<lparr> reported = take f reports, settled = Inl (Error (failureMessage script)) \<rparr>
              | None \<Rightarrow> \<lparr> reported = take a reports, settled = Inl AbortError \<rparr>)
         | None \<Rightarrow>
             (case failurePoint of
                Some f \<Rightarrow> \<lparr> reported = take f reports, settled = Inl (Error (failureMessage script)) \<rparr>
              | None \<Rightarrow> \<lparr> reported = reports, settled = Inr (produced script) \<rparr>))"

definition optionsMode :: "VideoRenderOptions \<Rightarrow> RenderMode" where
  "optionsMode options = (case mode options of None \<Rightarrow> preview | Some m \<Rightarrow> m)"

definition generateVideoWithWebCodecs ::
  "RunScript \<Rightarrow> Scene list \<Rightarrow> AspectRatio \<Rightarrow> VideoRenderOptions \<Rightarrow> RenderConfig \<Rightarrow> BackendRun" where
  "generateVideoWithWebCodecs script scenes aspectRatio options config =
     (if \<not> canvasContextAvailable script
      then \<lparr> reported = [],
             settled = Inl (Error ''Failed to get canvas context for WebCodecs video generation.'') \<rparr>
      else runFromPreload (renderProgressValues scenes (fps config) (optionsMode options)) script)"

text \<open>
  The test \<open>!MediaRecorder || !canvas.captureStream\<close> is written as its two
  short-circuit cases.
\<close>

definition generateWebMWithMediaRecorder ::
  "Environment \<Rightarrow> RunScript \<Rightarrow> Scene list \<Rightarrow> AspectRatio \<Rightarrow> VideoRenderOptions \<Rightarrow> RenderConfig
     \<Rightarrow> BackendRun" where
  "generateWebMWithMediaRecorder env script scenes aspectRatio options config =
     (if \<not> canvasContextAvailable script
      then \<lparr> reported = [],
             settled = Inl (Error ''Failed to get canvas context for video generation.'') \<rparr>
      else
        let unsupported =
              \<lparr> reported = [],
                settled = Inl (Error
                  ''MediaRecorder API or canvas.captureStream is not supported in this browser.'') \<rparr>
        in if \<not> mediaRecorderDefined env then unsupported
           else if \<not> captureStreamDefined env then unsupported
           else runFromPreload (renderProgressValues scenes (fps config) (optionsMode options)) script)"

datatype Backend = WebCodecs | MediaRecorder

text \<open>
  One call of \<open>generateWebMFromScenes\<close>: which renderer was started with which
  configuration, in order; every value passed to \<open>onProgressCallback\<close>, in order; and
  how the returned promise settles.
\<close>

record RenderCall =
  attempted :: "(Backend \<times> RenderConfig) list"
  progress :: "real list"
  outcome :: "render_error + GeneratedVideoResult"

text \<open>
  An \<open>AbortSignal\<close> stays aborted. When the first renderer has rejected with the
  \<open>AbortError\<close>, the second one starts with the signal aborted.
\<close>

definition afterFirstRun :: "BackendRun \<Rightarrow> RunScript \<Rightarrow> RunScript" where
  "afterFirstRun firstRun script =
     (if settled firstRun = Inl AbortError then script \<lparr> abortAfter := Some 0 \<rparr> else script)"

text \<open>
  \<open>generateWebMFromScenes\<close>: \<open>webCodecsScript\<close> and \<open>mediaRecorderScript\<close> are the browser's
  part in a run of each renderer. The \<open>.catch\<close> handler takes every rejection.
\<close>

definition generateWebMFromScenes ::
  "Environment \<Rightarrow> RunScript \<Rightarrow> RunScript \<Rightarrow> Scene list \<Rightarrow> AspectRatio \<Rightarrow> VideoRenderOptions
     \<Rightarrow> RenderCall" where
  "generateWebMFromScenes env webCodecsScript mediaRecorderScript scenes aspectRatio options =
     (let config = resolveOptimizedRenderConfig (optionsMode options) scenes in
      if hasWebCodecsSupport env then
        let first = generateVideoWithWebCodecs webCodecsScript scenes aspectRatio options config in
        case settled first of
          Inr video \<Rightarrow>
            \<lparr> attempted = [(WebCodecs, config)], progress = reported first, outcome = Inr video \<rparr>
        | Inl error \<Rightarrow>
            let second = generateWebMWithMediaRecorder env (afterFirstRun first mediaRecorderScript)
                           scenes aspectRatio options config
            in \<lparr> attempted = [(WebCodecs, config), (MediaRecorder, config)],
                 progress = reported first @ reported second,
                 outcome = settled second \<rparr>
      else
        let only = generateWebMWithMediaRecorder env mediaRecorderScript scenes aspectRatio options config
        in \<lparr> attempted = [(MediaRecorder, config)], progress = reported only, outcome = settled only \<rparr>)"

section \<open>Sample inputs\<close>

text \<open>Scenes that differ in their duration only, for the examples below.\<close>

definition sceneOfNumber :: "jsnumber \<Rightarrow> Scene" where
  "sceneOfNumber v = \<lparr> scene_id = ''scene'', sceneText = ''text'', scene_keywords = [],
     imagePrompt = ''prompt'', duration = v, footageUrl = ''url'', footageType = image_footage \<rparr>"

definition sceneOfDuration :: "real \<Rightarrow> Scene" where
  "sceneOfDuration d = sceneOfNumber (Num d)"

definition shortScenes :: "Scene list" where
  "shortScenes = map sceneOfDuration [2, 5, 3]"

definition threeScenes :: "Scene list" where
  "threeScenes = map sceneOfDuration [2, 20, 2]"

text \<open>
  Twenty scenes of 30 seconds in total: ten of 1.5018 s and ten of 1.4982 s. Scaled to
  the cap they are 0.7509 s and 0.7491 s, on either side of the minimum of 0.75 s and
  less than \<open>epsilon\<close> away from it.
\<close>

definition twentyScenes :: "Scene list" where
  "twentyScenes = map sceneOfDuration
     [7509 / 5000, 7509 / 5000, 7509 / 5000, 7509 / 5000, 7509 / 5000,
      7509 / 5000, 7509 / 5000, 7509 / 5000, 7509 / 5000, 7509 / 5000,
      7491 / 5000, 7491 / 5000, 7491 / 5000, 7491 / 5000, 7491 / 5000,
      7491 / 5000, 7491 / 5000, 7491 / 5000, 7491 / 5000, 7491 / 5000]"

text \<open>A scene with an unusable duration between two good ones.\<close>

definition scenesWithNaN :: "Scene list" where
  "scenesWithNaN = [sceneOfDuration 2, sceneOfNumber NaN, sceneOfDuration 3]"

text \<open>
  A scene as first planned, and the same scene (same id) after its caption has been
  edited.
\<close>

definition sceneAsPlanned :: Scene where
  "sceneAsPlanned = \<lparr> scene_id = ''a'', sceneText = '''', scene_keywords = [],
     imagePrompt = '''', duration = Num 5, footageUrl = ''https://example.org/a.png'',
     footageType = image_footage \<rparr>"

definition sceneAfterEdit :: Scene where
  "sceneAfterEdit = sceneAsPlanned \<lparr> sceneText := ''b'' \<rparr>"

definition everyAttemptFails :: "nat \<Rightarrow> attempt_outcome" where
  "everyAttemptFails attempt = AttemptFailed"

text \<open>
  Browsers: one with both APIs, one without WebCodecs, one with WebCodecs but without
  \<open>MediaRecorder\<close>.
\<close>

definition browserWithBoth :: Environment where
  "browserWithBoth = \<lparr> windowDefined = True, videoEncoderIsFunction = True,
     videoFrameIsFunction = True, mediaRecorderDefined = True, captureStreamDefined = True \<rparr>"

definition browserWithoutWebCodecs :: Environment where
  "browserWithoutWebCodecs = browserWithBoth \<lparr> videoEncoderIsFunction := False \<rparr>"

definition browserWithoutMediaRecorder :: Environment where
  "browserWithoutMediaRecorder = browserWithBoth \<lparr> mediaRecorderDefined := False \<rparr>"

text \<open>
  Runs: one in which nothing goes wrong; one cancelled when the three preload reports
  of a single scene and five frame reports have been made; one in which
  \<open>encoder.configure\<close> throws, right after the preload.
\<close>

definition undisturbedRun :: RunScript where
  "undisturbedRun = \<lparr> canvasContextAvailable = True, abortAfter = None, failureAfter = None,
     failureMessage = '''', produced = \<lparr> mimeType = ''video/webm'', format = webm \<rparr> \<rparr>"

definition cancelledAfterFiveFrames :: RunScript where
  "cancelledAfterFiveFrames = undisturbedRun \<lparr> abortAfter := Some 8 \<rparr>"

definition encoderRejectsConfiguration :: RunScript where
  "encoderRejectsConfiguration =
     undisturbedRun \<lparr> failureAfter := Some 3, failureMessage := ''Unsupported configuration.'' \<rparr>"

definition previewOptions :: VideoRenderOptions where
  "previewOptions = \<lparr> includeWatermark = False, mode = None \<rparr>"

text \<open>A scene of 0.4 s: six frames at the 15 frames per second of the preview.\<close>

definition briefScene :: Scene where
  "briefScene = sceneOfDuration (4 / 10)"

section \<open>Render timing: the claims\<close>

subsection \<open>Sanitised durations\<close>

lemma sanitise_valid: "isFinitePositive v \<Longrightarrow> Num (sanitiseDuration v) = v"
  by (cases v) auto

lemma sanitise_invalid: "\<not> isFinitePositive v \<Longrightarrow> sanitiseDuration v = 0"
  by (cases v) auto

lemma sanitise_nonneg: "0 \<le> sanitiseDuration v"
  by (cases v) auto

lemma sanitise_pos_iff: "0 < sanitiseDuration v \<longleftrightarrow> isFinitePositive v"
  by (cases v) auto

lemma sum_list_sanitised_nonneg: "0 \<le> (\<Sum>s\<leftarrow>scenes. sanitiseDuration (duration s))"
  by (rule sum_list_nonneg) (auto simp: sanitise_nonneg)

lemma sum_list_sanitised_pos:
  assumes "s \<in> set scenes" "isFinitePositive (duration s)"
  shows "0 < (\<Sum>s\<leftarrow>scenes. sanitiseDuration (duration s))"
  using assms
proof (induction scenes)
  case Nil
  then show ?case by simp
next
  case (Cons a scenes)
  show ?case
  proof (cases "s = a")
    case True
    then have "0 < sanitiseDuration (duration a)"
      using Cons.prems by (simp add: sanitise_pos_iff)
    then show ?thesis
      using sum_list_sanitised_nonneg [of scenes] by simp
  next
    case False
    then have "0 < (\<Sum>s\<leftarrow>scenes. sanitiseDuration (duration s))"
      using Cons by simp
    then show ?thesis
      using sanitise_nonneg [of "duration a"] by simp
  qed
qed

subsection \<open>Durations within the preview cap\<close>

text \<open>
  Claim C2. For every scene list whose total duration is at most the preview cap of
  15 seconds, \<open>computeEffectiveDurations(scenes, 'preview')\<close> returns every scene's
  duration unchanged. The code sums and returns the durations as \<open>sanitiseDuration\<close>
  leaves them: a finite positive duration, which is what the data model gives every
  scene, is returned as it is, and for a list of such durations the sum is the total raw
  duration and the result is the list of the durations.
\<close>

theorem preview_within_cap_unchanged:
  assumes total: "(\<Sum>s\<leftarrow>scenes. sanitiseDuration (duration s)) \<le> PREVIEW_MAX_TOTAL_DURATION_SECONDS"
  shows "computeEffectiveDurations scenes preview = map (\<lambda>s. sanitiseDuration (duration s)) scenes \<and>
         (\<forall>i<length scenes. isFinitePositive (duration (scenes ! i)) \<longrightarrow>
            Num (computeEffectiveDurations scenes preview ! i) = duration (scenes ! i)) \<and>
         ((\<forall>s \<in> set scenes. isFinitePositive (duration s)) \<longrightarrow>
            map Num (computeEffectiveDurations scenes preview) = map duration scenes)"
proof -
  have eq: "computeEffectiveDurations scenes preview = map (\<lambda>s. sanitiseDuration (duration s)) scenes"
  proof (cases "(\<Sum>s\<leftarrow>scenes. sanitiseDuration (duration s)) \<le> 0")
    case True
    then have zero: "(\<Sum>s\<leftarrow>scenes. sanitiseDuration (duration s)) = 0"
      using sum_list_sanitised_nonneg [of scenes] by simp
    have "\<forall>s \<in> set scenes. sanitiseDuration (duration s) = 0"
    proof (rule ccontr)
      assume "\<not> (\<forall>s \<in> set scenes. sanitiseDuration (duration s) = 0)"
      then obtain s where s: "s \<in> set scenes" "sanitiseDuration (duration s) \<noteq> 0" by blast
      then have "isFinitePositive (duration s)"
        using sanitise_invalid by blast
      from sum_list_sanitised_pos [OF s(1) this] zero show False by simp
    qed
    then have "map (\<lambda>s. sanitiseDuration (duration s)) scenes = replicate (length scenes) 0"
      by (simp add: map_replicate_const [symmetric] cong: map_cong)
    then show ?thesis
      using True by (simp add: computeEffectiveDurations_def Let_def)
  next
    case False
    then show ?thesis
      using total by (auto simp: computeEffectiveDurations_def Let_def)
  qed
  show ?thesis
    by (simp add: eq sanitise_valid)
qed

theorem preview_within_cap_unchanged_witness:
  "(\<Sum>s\<leftarrow>shortScenes. sanitiseDuration (duration s)) \<le> PREVIEW_MAX_TOTAL_DURATION_SECONDS \<and>
   isFinitePositive (duration (shortScenes ! 1)) \<and>
   Num (computeEffectiveDurations shortScenes preview ! 1) = duration (shortScenes ! 1) \<and>
   map Num (computeEffectiveDurations shortScenes preview) = map duration shortScenes"
proof -
  have valid: "\<forall>s \<in> set shortScenes. isFinitePositive (duration s)"
    and i: "1 < length shortScenes" "isFinitePositive (duration (shortScenes ! 1))"
    by (simp_all add: shortScenes_def sceneOfDuration_def sceneOfNumber_def)
  have total: "(\<Sum>s\<leftarrow>shortScenes. sanitiseDuration (duration s)) \<le> PREVIEW_MAX_TOTAL_DURATION_SECONDS"
    by (simp add: shortScenes_def sceneOfDuration_def sceneOfNumber_def
        PREVIEW_MAX_TOTAL_DURATION_SECONDS_def)
  show ?thesis
    using total valid i preview_within_cap_unchanged [OF total] by blast
qed

subsection \<open>Download mode\<close>

text \<open>
  Claim C4. In download mode the effective duration of every scene equals its raw
  duration: the result is the list of the sanitised durations, with no compression, so
  that every finite positive duration is returned as it is. And a single scene of
  5 seconds at 24 frames per second in download mode gives a plan of exactly one item,
  with \<open>frameCount = 120\<close>.
\<close>

theorem download_no_compression:
  "(\<forall>scenes.
      computeEffectiveDurations scenes download = map (\<lambda>s. sanitiseDuration (duration s)) scenes \<and>
      (\<forall>i<length scenes. isFinitePositive (duration (scenes ! i)) \<longrightarrow>
         Num (computeEffectiveDurations scenes download ! i) = duration (scenes ! i)) \<and>
      ((\<forall>s \<in> set scenes. isFinitePositive (duration s)) \<longrightarrow>
         map Num (computeEffectiveDurations scenes download) = map duration scenes)) \<and>
   (\<forall>s. duration s = Num 5 \<longrightarrow>
       buildRenderPlan [s] 24 download = [\<lparr> scene = s, durationSeconds = 5, frameCount = 120 \<rparr>])"
  by (auto simp: computeEffectiveDurations_def sanitise_valid buildRenderPlan_def Let_def safeDuration_def)

theorem download_no_compression_witness:
  "map Num (computeEffectiveDurations [sceneOfDuration 5] download) = map duration [sceneOfDuration 5] \<and>
   buildRenderPlan [sceneOfDuration 5] 24 download
     = [\<lparr> scene = sceneOfDuration 5, durationSeconds = 5, frameCount = 120 \<rparr>]"
  using download_no_compression by (simp add: sceneOfDuration_def sceneOfNumber_def)

subsection \<open>The redistribution loop\<close>

lemma lowered_refl: "lowered m a a"
  by (simp add: lowered_def)

lemma lowered_trans: "lowered m a b \<Longrightarrow> lowered m b c \<Longrightarrow> lowered m a c"
  unfolding lowered_def by (metis order_trans)

lemma lowered_update:
  assumes "0 < r" "r \<le> a ! k - m ! k"
  shows "lowered m a (a[k := a ! k - r])"
proof (cases "k < length a")
  case True
  then show ?thesis
    using assms unfolding lowered_def by (auto simp: nth_list_update)
next
  case False
  then have "a[k := a ! k - r] = a" by (intro list_update_beyond) simp
  then show ?thesis by (simp add: lowered_refl)
qed

lemma sum_list_update_real:
  fixes xs :: "real list"
  shows "k < length xs \<Longrightarrow> sum_list (xs[k := x]) = sum_list xs + x - xs ! k"
  by (induction xs arbitrary: k) (auto split: nat.splits)

lemma reduceAdjustable_lowered:
  "lowered m a (fst (reduceAdjustable idxs m d a c))"
proof (induction idxs arbitrary: a c)
  case Nil
  then show ?case by (simp add: lowered_refl)
next
  case (Cons k idxs)
  show ?case
  proof (cases "a ! k - m ! k \<le> 0 \<or> min (a ! k - m ! k) d \<le> 0")
    case True
    then show ?thesis using Cons.IH [of a c] by (auto simp: Let_def)
  next
    case False
    define r where "r = min (a ! k - m ! k) d"
    have r: "0 < r" "r \<le> a ! k - m ! k" using False by (auto simp: r_def)
    have "lowered m (a[k := a ! k - r]) (fst (reduceAdjustable idxs m d (a[k := a ! k - r]) (c + r)))"
      by (rule Cons.IH)
    then have "lowered m a (fst (reduceAdjustable idxs m d (a[k := a ! k - r]) (c + r)))"
      using lowered_update [OF r] lowered_trans by blast
    then show ?thesis using False by (simp add: Let_def r_def)
  qed
qed

lemma reduceAdjustable_sum:
  assumes "\<forall>k \<in> set idxs. k < length a"
  shows "snd (reduceAdjustable idxs m d a c) - c
           = sum_list a - sum_list (fst (reduceAdjustable idxs m d a c))"
  using assms
proof (induction idxs arbitrary: a c)
  case Nil
  then show ?case by simp
next
  case (Cons k idxs)
  show ?case
  proof (cases "a ! k - m ! k \<le> 0 \<or> min (a ! k - m ! k) d \<le> 0")
    case True
    then show ?thesis using Cons.IH [of a c] Cons.prems by (auto simp: Let_def)
  next
    case False
    define r where "r = min (a ! k - m ! k) d"
    define a1 where "a1 = a[k := a ! k - r]"
    have k: "k < length a" using Cons.prems by simp
    have "\<forall>k \<in> set idxs. k < length a1" using Cons.prems by (simp add: a1_def)
    from Cons.IH [OF this, of "c + r"]
    have "snd (reduceAdjustable idxs m d a1 (c + r)) - (c + r)
            = sum_list a1 - sum_list (fst (reduceAdjustable idxs m d a1 (c + r)))" .
    moreover have "sum_list a1 = sum_list a - r"
      using k by (simp add: a1_def sum_list_update_real)
    ultimately show ?thesis using False by (simp add: Let_def r_def a1_def)
  qed
qed

lemma adjustableIndices_bound: "\<forall>k \<in> set (adjustableIndices a m). k < length a"
  by (simp add: adjustableIndices_def)

lemma clampLoop_lowered:
  "lowered m a (fst (clampLoop n m t a tot))"
proof (induction n arbitrary: a tot)
  case 0
  then show ?case by (simp add: lowered_refl)
next
  case (Suc n)
  define idxs where "idxs = adjustableIndices a m"
  define a1 where "a1 = fst (reduceAdjustable idxs m ((tot - t) / real (length idxs)) a 0)"
  define c where "c = snd (reduceAdjustable idxs m ((tot - t) / real (length idxs)) a 0)"
  have a1: "lowered m a a1" unfolding a1_def by (rule reduceAdjustable_lowered)
  have "lowered m a1 (fst (clampLoop n m t a1 (tot - c)))" by (rule Suc.IH)
  then have "lowered m a (fst (clampLoop n m t a1 (tot - c)))"
    using a1 lowered_trans by blast
  then show ?case
    using a1 by (simp add: Let_def lowered_refl split_beta idxs_def [symmetric] a1_def [symmetric] c_def [symmetric])
qed

lemma reduceAdjustable_distinct:
  assumes "distinct idxs" "\<forall>k \<in> set idxs. k < length a \<and> 0 < a ! k - m ! k" "0 < d"
  shows "reduceAdjustable idxs m d a c =
           (map (\<lambda>i. if i \<in> set idxs then a ! i - min (a ! i - m ! i) d else a ! i) [0..<length a],
            c + (\<Sum>k\<leftarrow>idxs. min (a ! k - m ! k) d))"
  using assms
proof (induction idxs arbitrary: a c)
  case Nil
  then show ?case by (simp add: map_nth)
next
  case (Cons k idxs)
  define r where "r = min (a ! k - m ! k) d"
  define a1 where "a1 = a[k := a ! k - r]"
  have k: "k < length a" "0 < a ! k - m ! k" "k \<notin> set idxs" using Cons.prems by auto
  have r: "0 < r" using k Cons.prems(3) by (simp add: r_def)
  have same: "\<And>j. j \<in> set idxs \<Longrightarrow> a1 ! j = a ! j"
    using k by (auto simp: a1_def nth_list_update)
  have pre: "\<forall>j \<in> set idxs. j < length a1 \<and> 0 < a1 ! j - m ! j"
    using Cons.prems same by (simp add: a1_def)
  have d: "distinct idxs" using Cons.prems by simp
  have IH: "reduceAdjustable idxs m d a1 (c + r) =
           (map (\<lambda>i. if i \<in> set idxs then a1 ! i - min (a1 ! i - m ! i) d else a1 ! i) [0..<length a1],
            (c + r) + (\<Sum>j\<leftarrow>idxs. min (a1 ! j - m ! j) d))"
    by (rule Cons.IH [OF d pre Cons.prems(3)])
  have s: "(\<Sum>j\<leftarrow>idxs. min (a1 ! j - m ! j) d) = (\<Sum>j\<leftarrow>idxs. min (a ! j - m ! j) d)"
    by (rule arg_cong [where f = sum_list]) (simp add: same)
  have mp: "map (\<lambda>i. if i \<in> set idxs then a1 ! i - min (a1 ! i - m ! i) d else a1 ! i) [0..<length a1]
          = map (\<lambda>i. if i \<in> set (k # idxs) then a ! i - min (a ! i - m ! i) d else a ! i) [0..<length a]"
    using k by (auto simp: a1_def nth_list_update r_def)
  have "\<not> a ! k - m ! k \<le> 0" "\<not> min (a ! k - m ! k) d \<le> 0"
    using k r by (simp_all add: r_def)
  then have "reduceAdjustable (k # idxs) m d a c = reduceAdjustable idxs m d a1 (c + r)"
    by (simp add: Let_def r_def a1_def)
  then show ?case
    using IH s mp by (simp add: r_def)
qed

lemma member_le_sum_list_real:
  fixes xs :: "real list"
  assumes "\<forall>x \<in> set xs. 0 \<le> x" "y \<in> set xs"
  shows "y \<le> sum_list xs"
  using assms
proof (induction xs)
  case Nil
  then show ?case by simp
next
  case (Cons x xs)
  have nn: "0 \<le> sum_list xs" using Cons.prems by (intro sum_list_nonneg) simp
  show ?case
  proof (cases "y = x")
    case True
    then show ?thesis using nn by simp
  next
    case False
    then have "y \<le> sum_list xs" using Cons by simp
    then show ?thesis using Cons.prems by simp
  qed
qed

lemma adjustableIndices_distinct: "distinct (adjustableIndices a m)"
  by (simp add: adjustableIndices_def)

lemma adjustableIndices_slack:
  "k \<in> set (adjustableIndices a m) \<Longrightarrow> k < length a \<and> epsilon < a ! k - m ! k"
  by (simp add: adjustableIndices_def)

lemma epsilon_pos: "0 < epsilon"
  by (simp add: epsilon_def)

text \<open>One pass of the loop body over the adjustable indices.\<close>

lemma pass_consumed:
  assumes idxs: "idxs = adjustableIndices a m" "idxs \<noteq> []"
    and ex: "epsilon < excess"
    and d: "d = excess / real (length idxs)"
  shows "epsilon < snd (reduceAdjustable idxs m d a 0)"
proof -
  have len: "0 < real (length idxs)" using idxs by simp
  have dpos: "0 < d" using ex epsilon_pos len by (simp add: d)
  have pre: "\<forall>k \<in> set idxs. k < length a \<and> 0 < a ! k - m ! k"
    using adjustableIndices_slack [of _ a m] epsilon_pos idxs(1) by fastforce
  have c: "snd (reduceAdjustable idxs m d a 0) = (\<Sum>k\<leftarrow>idxs. min (a ! k - m ! k) d)"
    using reduceAdjustable_distinct [OF _ pre dpos, of 0] adjustableIndices_distinct idxs(1) by simp
  show ?thesis
  proof (cases "\<forall>k \<in> set idxs. d \<le> a ! k - m ! k")
    case True
    then have "(\<Sum>k\<leftarrow>idxs. min (a ! k - m ! k) d) = (\<Sum>k\<leftarrow>idxs. d)"
      by (intro arg_cong [where f = sum_list]) (simp add: min_absorb2)
    also have "\<dots> = real (length idxs) * d" by (simp add: sum_list_triv)
    also have "\<dots> = excess" using len by (simp add: d)
    finally show ?thesis using c ex by simp
  next
    case False
    then obtain k where k: "k \<in> set idxs" "a ! k - m ! k < d" by auto
    have nn: "\<forall>x \<in> set (map (\<lambda>k. min (a ! k - m ! k) d) idxs). 0 \<le> x"
      using pre dpos by auto
    have "min (a ! k - m ! k) d \<in> (\<lambda>k. min (a ! k - m ! k) d) ` set idxs"
      using k(1) by (rule imageI)
    then have "min (a ! k - m ! k) d \<in> set (map (\<lambda>k. min (a ! k - m ! k) d) idxs)"
      by simp
    from member_le_sum_list_real [OF nn this]
    have "a ! k - m ! k \<le> (\<Sum>k\<leftarrow>idxs. min (a ! k - m ! k) d)" using k by simp
    moreover have "epsilon < a ! k - m ! k"
      using adjustableIndices_slack k idxs(1) by blast
    ultimately show ?thesis using c by simp
  qed
qed

lemma clampLoop_done:
  "currentTotal - t \<le> epsilon \<Longrightarrow> clampLoop n m t a currentTotal = (a, currentTotal)"
  by (cases n) simp_all

lemma sum_list_pointwise_le:
  fixes xs ys :: "real list"
  assumes "length xs = length ys" "\<forall>i<length xs. xs ! i \<le> ys ! i"
  shows "sum_list xs \<le> sum_list ys"
  using assms
proof (induction xs ys rule: list_induct2)
  case Nil
  then show ?case by simp
next
  case (Cons x xs y ys)
  have "x \<le> y" using Cons.prems [rule_format, of 0] by simp
  moreover have "\<forall>i<length xs. xs ! i \<le> ys ! i"
  proof (intro allI impI)
    fix i assume "i < length xs"
    then show "xs ! i \<le> ys ! i" using Cons.prems [rule_format, of "Suc i"] by simp
  qed
  ultimately show ?case using Cons.IH by simp
qed

lemma sum_list_if_const:
  fixes c :: real
  shows "(\<Sum>v\<leftarrow>xs. if P v then c else 0) = real (length (filter P xs)) * c"
  by (induction xs) (simp_all add: algebra_simps)

lemma length_filter_mono:
  assumes "\<forall>x \<in> set xs. P x \<longrightarrow> Q x"
  shows "length (filter P xs) \<le> length (filter Q xs)"
  using assms by (induction xs) auto

lemma length_filter_nth:
  "length (filter (\<lambda>i. P (xs ! i)) [0..<length xs]) = length (filter P xs)"
proof -
  have "filter P xs = filter P (map ((!) xs) [0..<length xs])"
    by (simp add: map_nth)
  also have "\<dots> = map ((!) xs) (filter (P \<circ> (!) xs) [0..<length xs])"
    by (simp add: filter_map)
  finally have "length (filter P xs) = length (filter (P \<circ> (!) xs) [0..<length xs])"
    by simp
  then show ?thesis by (simp add: comp_def)
qed

text \<open>What \<open>clampDurationsWithMinimums\<close> guarantees on every input with
  \<open>0 \<le> minimums[i] \<le> durations[i]\<close>.\<close>

lemma clampDurations_pointwise:
  assumes len: "length m = length d"
    and dm: "\<forall>i<length d. 0 \<le> m ! i \<and> m ! i \<le> d ! i"
    and t: "0 \<le> t"
  shows "length (clampDurationsWithMinimums d m t) = length d \<and>
         (\<forall>i<length d. m ! i \<le> clampDurationsWithMinimums d m t ! i \<and>
                        clampDurationsWithMinimums d m t ! i \<le> d ! i \<and>
                        (d ! i = m ! i \<longrightarrow> clampDurationsWithMinimums d m t ! i = m ! i))"
proof -
  obtain a' tot' where loop: "clampLoop 1000 m t d (sum_list d) = (a', tot')" by fastforce
  have low: "lowered m d a'" using clampLoop_lowered [of m d 1000 t "sum_list d"] loop by simp
  then have la: "length a' = length d" by (simp add: lowered_def)
  have a': "\<And>i. i < length d \<Longrightarrow> m ! i \<le> a' ! i \<and> a' ! i \<le> d ! i \<and> (d ! i = m ! i \<longrightarrow> a' ! i = m ! i)"
    using low dm unfolding lowered_def by auto
  show ?thesis
  proof (cases "length d = 0 \<or> sum_list d \<le> t")
    case True
    then show ?thesis using dm by (auto simp: clampDurationsWithMinimums_def Let_def)
  next
    case False
    show ?thesis
    proof (cases "tot' > t")
      case gt: True
      define scale where "scale = t / tot'"
      have sc: "0 \<le> scale" "scale \<le> 1" using gt t by (simp_all add: scale_def)
      have r: "clampDurationsWithMinimums d m t = map (\<lambda>i. max (m ! i) (a' ! i * scale)) [0..<length d]"
        using False gt loop la by (simp add: clampDurationsWithMinimums_def Let_def scale_def)
      have "\<forall>i<length d. m ! i \<le> max (m ! i) (a' ! i * scale) \<and>
               max (m ! i) (a' ! i * scale) \<le> d ! i \<and>
               (d ! i = m ! i \<longrightarrow> max (m ! i) (a' ! i * scale) = m ! i)"
      proof (intro allI impI)
        fix i assume i: "i < length d"
        have A: "m ! i \<le> a' ! i" "a' ! i \<le> d ! i" "d ! i = m ! i \<longrightarrow> a' ! i = m ! i"
          using a' [OF i] by simp_all
        have nn: "0 \<le> m ! i" using dm i by simp
        then have "0 \<le> a' ! i" using A(1) by simp
        then have "a' ! i * scale \<le> a' ! i * 1" using sc by (intro mult_left_mono) simp_all
        then have B: "a' ! i * scale \<le> a' ! i" by simp
        show "m ! i \<le> max (m ! i) (a' ! i * scale) \<and>
               max (m ! i) (a' ! i * scale) \<le> d ! i \<and>
               (d ! i = m ! i \<longrightarrow> max (m ! i) (a' ! i * scale) = m ! i)"
          using A B by (auto simp: max_def)
      qed
      then show ?thesis by (simp add: r)
    next
      case ngt: False
      have r: "clampDurationsWithMinimums d m t = a'"
        using False ngt loop by (simp add: clampDurationsWithMinimums_def Let_def)
      show ?thesis using a' la by (simp add: r)
    qed
  qed
qed

text \<open>Every pass of the redistribution loop divides the product of the number of
  adjustable scenes and the remaining excess by at least four: a pass with \<open>k\<close> adjustable
  scenes of which \<open>u\<close> take the full decrement leaves at most \<open>u\<close> adjustable scenes and
  at most the fraction \<open>(k - u) / k\<close> of the excess. So the loop ends with an excess of at
  most \<open>epsilon\<close> or with no adjustable scene whenever that product is at most
  \<open>epsilon * 4 ^ 1000\<close> at the start.\<close>

lemma quarter_product:
  fixes X K :: real
  shows "X * (K - X) \<le> K * K / 4"
proof -
  have "0 \<le> (K - 2 * X) * (K - 2 * X)" by simp
  then show ?thesis by (simp add: algebra_simps)
qed

lemma pass_potential:
  assumes idxs: "idxs = adjustableIndices a m" "idxs \<noteq> []"
    and ex: "epsilon < excess"
    and d: "d = excess / real (length idxs)"
    and r: "reduceAdjustable idxs m d a 0 = (a1, c)"
  shows "real (length (adjustableIndices a1 m)) * (excess - c) \<le> real (length idxs) * excess / 4"
proof -
  define K where "K = real (length idxs)"
  have K: "0 < K" using idxs by (simp add: K_def)
  have E: "0 < excess" using ex epsilon_pos by simp
  have dpos: "0 < d" using E K by (simp add: d K_def)
  have pre: "\<forall>k \<in> set idxs. k < length a \<and> 0 < a ! k - m ! k"
    using adjustableIndices_slack [of _ a m] epsilon_pos idxs(1) by fastforce
  have dist: "distinct idxs" using adjustableIndices_distinct idxs(1) by simp
  note ch = reduceAdjustable_distinct [OF dist pre dpos, of 0]
  have c: "c = (\<Sum>k\<leftarrow>idxs. min (a ! k - m ! k) d)" using ch r by simp
  have a1: "a1 = map (\<lambda>i. if i \<in> set idxs then a ! i - min (a ! i - m ! i) d else a ! i) [0..<length a]"
    using ch r by simp
  define uns where "uns = filter (\<lambda>k. \<not> a ! k - m ! k < d) idxs"
  define X where "X = real (length uns)"
  have XK: "X \<le> K" by (simp add: X_def K_def uns_def)
  have X0: "0 \<le> X" by (simp add: X_def)
  have "(\<Sum>k\<leftarrow>idxs. if \<not> a ! k - m ! k < d then d else 0) \<le> (\<Sum>k\<leftarrow>idxs. min (a ! k - m ! k) d)"
    using pre dpos by (intro sum_list_mono) (auto simp: min_def)
  then have lower: "X * d \<le> c"
    by (simp add: sum_list_if_const c X_def uns_def)
  have "(\<Sum>k\<leftarrow>idxs. min (a ! k - m ! k) d) \<le> (\<Sum>k\<leftarrow>idxs. d)"
    by (intro sum_list_mono) simp
  then have upper: "c \<le> excess"
    using K by (simp add: c sum_list_triv d K_def)
  have low: "lowered m a a1"
    using reduceAdjustable_lowered [of m a idxs d 0] r by simp
  have sub: "set (adjustableIndices a1 m) \<subseteq> set uns"
  proof
    fix j assume "j \<in> set (adjustableIndices a1 m)"
    then have j: "j < length a1" "epsilon < a1 ! j - m ! j"
      by (simp_all add: adjustableIndices_def)
    have la: "length a1 = length a" and le: "a1 ! j \<le> a ! j"
      using low j(1) by (simp_all add: lowered_def)
    have jin: "j \<in> set idxs"
      using j la le by (simp add: idxs(1) adjustableIndices_def)
    have "\<not> a ! j - m ! j < d"
    proof
      assume "a ! j - m ! j < d"
      then have "a1 ! j = m ! j" using jin j(1) la by (simp add: a1 min_def)
      then show False using j(2) epsilon_pos by simp
    qed
    then show "j \<in> set uns" using jin by (simp add: uns_def)
  qed
  have "length (adjustableIndices a1 m) = card (set (adjustableIndices a1 m))"
    using adjustableIndices_distinct [of a1 m] by (simp add: distinct_card)
  also have "\<dots> \<le> card (set uns)" using sub by (intro card_mono) simp_all
  also have "\<dots> \<le> length uns" by (rule card_length)
  finally have L: "real (length (adjustableIndices a1 m)) \<le> X" by (simp add: X_def)
  have nonneg: "0 \<le> excess - c" using upper by simp
  have "real (length (adjustableIndices a1 m)) * (excess - c) \<le> X * (excess - c)"
    using L nonneg by (rule mult_right_mono)
  also have "\<dots> \<le> X * (excess - X * d)"
    using lower X0 by (intro mult_left_mono) simp_all
  also have "\<dots> = (X * (K - X)) * (excess / K)"
    using K by (simp add: d K_def [symmetric] field_simps)
  also have "\<dots> \<le> (K * K / 4) * (excess / K)"
    using quarter_product [of X K] E K by (intro mult_right_mono) simp_all
  also have "\<dots> = K * excess / 4" using K by simp
  finally show ?thesis by (simp add: K_def)
qed

lemma clampLoop_potential:
  assumes "tot = sum_list a"
    and "real (length (adjustableIndices a m)) * (tot - t) \<le> epsilon * 4 ^ n"
  shows "snd (clampLoop n m t a tot) = sum_list (fst (clampLoop n m t a tot)) \<and>
         (snd (clampLoop n m t a tot) - t \<le> epsilon \<or>
          adjustableIndices (fst (clampLoop n m t a tot)) m = [])"
  using assms
proof (induction n arbitrary: a tot)
  case 0
  show ?case
  proof (cases "adjustableIndices a m = [] \<or> tot - t \<le> 0")
    case True
    then show ?thesis using "0.prems"(1) epsilon_pos by auto
  next
    case False
    then have "1 \<le> real (length (adjustableIndices a m))" "0 < tot - t"
      by (simp_all add: Suc_leI)
    then have "1 * (tot - t) \<le> real (length (adjustableIndices a m)) * (tot - t)"
      by (intro mult_right_mono) simp_all
    then show ?thesis using "0.prems" by simp
  qed
next
  case (Suc n)
  show ?case
  proof (cases "tot - t \<le> epsilon")
    case True
    then show ?thesis using Suc.prems by (simp add: clampLoop_done)
  next
    case big: False
    define idxs where "idxs = adjustableIndices a m"
    show ?thesis
    proof (cases "idxs = []")
      case True
      then show ?thesis using big Suc.prems by (simp add: idxs_def Let_def)
    next
      case False
      define d where "d = (tot - t) / real (length idxs)"
      obtain a1 c where r: "reduceAdjustable idxs m d a 0 = (a1, c)" by fastforce
      have ex: "epsilon < tot - t" using big by simp
      have c: "epsilon < c"
        using pass_consumed [OF idxs_def False ex d_def] r by simp
      have step: "clampLoop (Suc n) m t a tot = clampLoop n m t a1 (tot - c)"
        using big False c r by (simp add: Let_def idxs_def [symmetric] d_def [symmetric])
      have "\<forall>k \<in> set idxs. k < length a"
        using adjustableIndices_bound [of a m] by (simp add: idxs_def)
      from reduceAdjustable_sum [OF this, of m d 0]
      have sum: "tot - c = sum_list a1" using r Suc.prems(1) by simp
      have "real (length (adjustableIndices a1 m)) * ((tot - t) - c)
              \<le> real (length idxs) * (tot - t) / 4"
        by (rule pass_potential [OF idxs_def False ex d_def r])
      also have "\<dots> \<le> epsilon * 4 ^ Suc n / 4"
        using Suc.prems(2) by (simp add: idxs_def)
      finally have pot: "real (length (adjustableIndices a1 m)) * ((tot - c) - t) \<le> epsilon * 4 ^ n"
        by (simp add: algebra_simps)
      from Suc.IH [OF sum pot] show ?thesis unfolding step .
    qed
  qed
qed

lemma clampDurations_result:
  assumes len: "length m = length d"
    and dm: "\<forall>i<length d. 0 \<le> m ! i \<and> m ! i \<le> d ! i"
    and t: "0 \<le> t"
    and over: "t < sum_list d"
    and pot: "real (length (adjustableIndices d m)) * (sum_list d - t) \<le> epsilon * 4 ^ 1000"
  obtains a' where "lowered m d a'"
    and "sum_list a' - t \<le> epsilon \<or> adjustableIndices a' m = []"
    and "clampDurationsWithMinimums d m t =
           (if t < sum_list a'
            then map (\<lambda>i. max (m ! i) (a' ! i * (t / sum_list a'))) [0..<length d]
            else a')"
proof -
  obtain a' tot' where loop: "clampLoop 1000 m t d (sum_list d) = (a', tot')" by fastforce
  have low: "lowered m d a'" using clampLoop_lowered [of m d 1000 t "sum_list d"] loop by simp
  then have la: "length a' = length d" by (simp add: lowered_def)
  have "snd (a', tot') = sum_list (fst (a', tot')) \<and>
        (snd (a', tot') - t \<le> epsilon \<or> adjustableIndices (fst (a', tot')) m = [])"
    using clampLoop_potential [OF refl pot] unfolding loop .
  then have post: "tot' = sum_list a'" "sum_list a' - t \<le> epsilon \<or> adjustableIndices a' m = []"
    by auto
  have ne: "length d \<noteq> 0" using over t by auto
  have "clampDurationsWithMinimums d m t =
           (if t < sum_list a'
            then map (\<lambda>i. max (m ! i) (a' ! i * (t / sum_list a'))) [0..<length d]
            else a')"
    using ne over loop la post(1) by (simp add: clampDurationsWithMinimums_def Let_def)
  with low post(2) show ?thesis by (rule that)
qed

lemma positiveSceneCount_pos:
  assumes "0 < (\<Sum>s\<leftarrow>scenes. sanitiseDuration (duration s))"
  shows "0 < positiveSceneCount scenes"
proof (rule ccontr)
  assume "\<not> 0 < positiveSceneCount scenes"
  then have "filter (\<lambda>s. sanitiseDuration (duration s) > 0) scenes = []"
    by (simp add: positiveSceneCount_def)
  then have "\<forall>s \<in> set scenes. sanitiseDuration (duration s) \<le> 0"
    by (simp add: filter_empty_conv not_less)
  then have "(\<Sum>s\<leftarrow>scenes. sanitiseDuration (duration s)) \<le> 0"
    by (intro sum_list_nonpos) auto
  then show False using assms by simp
qed

lemma computedMinimum_pos:
  assumes "0 < positiveSceneCount scenes"
  shows "0 < computedMinimum scenes"
  using assms
  by (simp add: computedMinimum_def PREVIEW_MIN_SCENE_DURATION_SECONDS_def
      PREVIEW_MAX_TOTAL_DURATION_SECONDS_def)

lemma computedMinimum_total:
  assumes "0 < positiveSceneCount scenes"
  shows "real (positiveSceneCount scenes) * computedMinimum scenes \<le> PREVIEW_MAX_TOTAL_DURATION_SECONDS"
proof -
  have "computedMinimum scenes \<le> PREVIEW_MAX_TOTAL_DURATION_SECONDS / real (positiveSceneCount scenes)"
    by (simp add: computedMinimum_def)
  then show ?thesis using assms by (simp add: field_simps)
qed

lemma compress_unfold:
  assumes "PREVIEW_MAX_TOTAL_DURATION_SECONDS < (\<Sum>s\<leftarrow>scenes. sanitiseDuration (duration s))"
  shows "computeEffectiveDurations scenes preview =
           clampDurationsWithMinimums (clampedDurations scenes) (sceneMinimums scenes)
             PREVIEW_MAX_TOTAL_DURATION_SECONDS"
proof -
  define san where "san = map (\<lambda>s. sanitiseDuration (duration s)) scenes"
  define T where "T = sum_list san"
  define scaled where
    "scaled = map (\<lambda>value. if value \<le> 0 then 0
                      else (value / T) * PREVIEW_MAX_TOTAL_DURATION_SECONDS) san"
  define pcount where "pcount = length (filter (\<lambda>value. value > 0) san)"
  define dmin where
    "dmin = (if pcount > 0
             then min PREVIEW_MIN_SCENE_DURATION_SECONDS
                      (PREVIEW_MAX_TOTAL_DURATION_SECONDS / real pcount)
             else 0)"
  define mins where "mins = map (\<lambda>value. if value > 0 then dmin else 0) san"
  define clamped where
    "clamped = map (\<lambda>index. if mins ! index = 0 then 0
                      else max (mins ! index) (scaled ! index)) [0..<length scaled]"
  have T: "PREVIEW_MAX_TOTAL_DURATION_SECONDS < T" "0 < T"
    using assms by (simp_all add: T_def san_def PREVIEW_MAX_TOTAL_DURATION_SECONDS_def)
  then have ne: "scenes \<noteq> []" by (auto simp: T_def san_def)
  have c: "\<not> T \<le> 0" "\<not> T \<le> PREVIEW_MAX_TOTAL_DURATION_SECONDS" "\<not> length scenes = 0"
    using T ne by simp_all
  have unf: "computeEffectiveDurations scenes preview =
          clampDurationsWithMinimums clamped mins PREVIEW_MAX_TOTAL_DURATION_SECONDS"
    unfolding computeEffectiveDurations_def Let_def
    unfolding san_def [symmetric] T_def [symmetric]
    unfolding scaled_def [symmetric] pcount_def [symmetric]
    unfolding dmin_def [symmetric]
    unfolding mins_def [symmetric]
    unfolding clamped_def [symmetric]
    using c by (simp only: if_False simp_thms)
  have pc: "0 < positiveSceneCount scenes"
    using T(2) unfolding T_def san_def by (rule positiveSceneCount_pos)
  have pc': "pcount = positiveSceneCount scenes"
    by (simp add: pcount_def san_def positiveSceneCount_def filter_map comp_def)
  have dm: "dmin = computedMinimum scenes" "0 < dmin"
    using pc computedMinimum_pos [OF pc] by (simp_all add: dmin_def pc' computedMinimum_def)
  have mins: "mins = sceneMinimums scenes"
    by (simp add: mins_def san_def sceneMinimums_def dm comp_def)
  have cl: "clamped = clampedDurations scenes"
  proof (rule nth_equalityI)
    show "length clamped = length (clampedDurations scenes)"
      by (simp add: clamped_def scaled_def san_def clampedDurations_def)
  next
    fix i assume "i < length clamped"
    then have i: "i < length scenes" by (simp add: clamped_def scaled_def san_def)
    have m: "mins ! i = (if sanitiseDuration (duration (scenes ! i)) > 0 then dmin else 0)"
      using i by (simp add: mins_def san_def)
    have s: "scaled ! i = (if sanitiseDuration (duration (scenes ! i)) \<le> 0 then 0
               else sanitiseDuration (duration (scenes ! i)) / T * PREVIEW_MAX_TOTAL_DURATION_SECONDS)"
      using i by (simp add: scaled_def san_def)
    have "clamped ! i = (if mins ! i = 0 then 0 else max (mins ! i) (scaled ! i))"
      using i by (simp add: clamped_def scaled_def san_def)
    then show "clamped ! i = clampedDurations scenes ! i"
      using i dm by (simp add: m s clampedDurations_def T_def san_def comp_def)
  qed
  show ?thesis using unf by (simp only: mins cl)
qed

lemma sceneMinimums_nth:
  "i < length scenes \<Longrightarrow>
     sceneMinimums scenes ! i =
       (if sanitiseDuration (duration (scenes ! i)) > 0 then computedMinimum scenes else 0)"
  by (simp add: sceneMinimums_def)

lemma clampedDurations_nth:
  "i < length scenes \<Longrightarrow>
     clampedDurations scenes ! i =
       (if sanitiseDuration (duration (scenes ! i)) > 0
        then max (computedMinimum scenes)
                 (sanitiseDuration (duration (scenes ! i)) / (\<Sum>s\<leftarrow>scenes. sanitiseDuration (duration s))
                    * PREVIEW_MAX_TOTAL_DURATION_SECONDS)
        else 0)"
  by (simp add: clampedDurations_def)

lemma compress_lengths:
  "length (sceneMinimums scenes) = length scenes" "length (clampedDurations scenes) = length scenes"
  by (simp_all add: sceneMinimums_def clampedDurations_def)

lemma compress_pre:
  assumes "0 < positiveSceneCount scenes"
  shows "\<forall>i<length (clampedDurations scenes).
           0 \<le> sceneMinimums scenes ! i \<and> sceneMinimums scenes ! i \<le> clampedDurations scenes ! i"
proof (intro allI impI)
  fix i assume "i < length (clampedDurations scenes)"
  then have i: "i < length scenes" by (simp add: compress_lengths)
  have "0 < computedMinimum scenes" using assms by (rule computedMinimum_pos)
  then show "0 \<le> sceneMinimums scenes ! i \<and> sceneMinimums scenes ! i \<le> clampedDurations scenes ! i"
    by (simp add: sceneMinimums_nth [OF i] clampedDurations_nth [OF i])
qed

lemma compress_adjustable:
  "length (adjustableIndices (clampedDurations scenes) (sceneMinimums scenes))
     \<le> positiveSceneCount scenes"
proof -
  define san where "san = map (\<lambda>s. sanitiseDuration (duration s)) scenes"
  have "\<forall>i \<in> set [0..<length scenes].
          epsilon < clampedDurations scenes ! i - sceneMinimums scenes ! i \<longrightarrow> 0 < san ! i"
  proof (intro ballI impI)
    fix i assume "i \<in> set [0..<length scenes]"
    then have i: "i < length scenes" by simp
    assume "epsilon < clampedDurations scenes ! i - sceneMinimums scenes ! i"
    then have "clampedDurations scenes ! i \<noteq> sceneMinimums scenes ! i"
      using epsilon_pos by auto
    then have "0 < sanitiseDuration (duration (scenes ! i))"
      by (simp add: sceneMinimums_nth [OF i] clampedDurations_nth [OF i] split: if_splits)
    then show "0 < san ! i" using i by (simp add: san_def)
  qed
  then have "length (filter (\<lambda>i. epsilon < clampedDurations scenes ! i - sceneMinimums scenes ! i)
                 [0..<length scenes])
          \<le> length (filter (\<lambda>i. 0 < san ! i) [0..<length scenes])"
    by (rule length_filter_mono)
  also have "\<dots> = length (filter (\<lambda>i. 0 < san ! i) [0..<length san])"
    by (simp add: san_def)
  also have "\<dots> = length (filter (\<lambda>v. 0 < v) san)"
    by (rule length_filter_nth)
  also have "\<dots> = positiveSceneCount scenes"
    by (simp add: san_def positiveSceneCount_def filter_map comp_def)
  finally show ?thesis
    by (simp add: adjustableIndices_def compress_lengths)
qed

lemma effective_length:
  "length (computeEffectiveDurations scenes renderMode) = length scenes"
proof (cases "renderMode = preview \<and> PREVIEW_MAX_TOTAL_DURATION_SECONDS < (\<Sum>s\<leftarrow>scenes. sanitiseDuration (duration s))")
  case True
  then have T: "0 < (\<Sum>s\<leftarrow>scenes. sanitiseDuration (duration s))"
    by (simp add: PREVIEW_MAX_TOTAL_DURATION_SECONDS_def)
  have pre: "\<forall>i<length (clampedDurations scenes).
           0 \<le> sceneMinimums scenes ! i \<and> sceneMinimums scenes ! i \<le> clampedDurations scenes ! i"
    using positiveSceneCount_pos [OF T] by (rule compress_pre)
  have "0 \<le> PREVIEW_MAX_TOTAL_DURATION_SECONDS"
    by (simp add: PREVIEW_MAX_TOTAL_DURATION_SECONDS_def)
  from clampDurations_pointwise [OF _ pre this]
  show ?thesis using True by (simp add: compress_unfold compress_lengths)
next
  case False
  then show ?thesis by (auto simp: computeEffectiveDurations_def Let_def)
qed

subsection \<open>Frame counts of the render plan\<close>

text \<open>
  Claim C3. For every scene list, every frame rate of at least 1 and both modes, the render
  plan has one item per scene, in order, and every item satisfies
  \<open>frameCount = max(1, ceil(durationSeconds * fps))\<close>; \<open>durationSeconds\<close> is the effective
  duration of \<open>computeEffectiveDurations\<close> whenever that exceeds 0.01.
\<close>

theorem buildRenderPlan_frameCount:
  assumes "1 \<le> rate"
  shows "length (buildRenderPlan scenes rate renderMode) = length scenes \<and>
         (\<forall>item \<in> set (buildRenderPlan scenes rate renderMode).
            frameCount item = max 1 \<lceil>durationSeconds item * rate\<rceil>) \<and>
         (\<forall>i<length scenes.
            scene (buildRenderPlan scenes rate renderMode ! i) = scenes ! i \<and>
            (1 / 100 < computeEffectiveDurations scenes renderMode ! i \<longrightarrow>
               durationSeconds (buildRenderPlan scenes rate renderMode ! i)
                 = computeEffectiveDurations scenes renderMode ! i))"
  by (auto simp: buildRenderPlan_def Let_def safeDuration_def effective_length)

theorem buildRenderPlan_frameCount_witness:
  "(1::real) \<le> 15 \<and>
   frameCount (buildRenderPlan threeScenes 15 preview ! 1)
     = max 1 \<lceil>durationSeconds (buildRenderPlan threeScenes 15 preview ! 1) * 15\<rceil>"
proof -
  have h: "(1::real) \<le> 15" by simp
  have "length (buildRenderPlan threeScenes 15 preview) = 3"
    using buildRenderPlan_frameCount [OF h, of threeScenes preview]
    by (simp add: threeScenes_def)
  then have "buildRenderPlan threeScenes 15 preview ! 1 \<in> set (buildRenderPlan threeScenes 15 preview)"
    by (intro nth_mem) simp
  then show ?thesis
    using buildRenderPlan_frameCount [OF h, of threeScenes preview] by auto
qed

subsection \<open>Compression to the preview cap\<close>

text \<open>When the loop stops because no scene is adjustable and every minimum is
  \<open>cap / p\<close>, the last-resort scaling by \<open>cap / total\<close> brings the excess from at most
  \<open>p * epsilon\<close> down to at most \<open>p * epsilon / 4\<close>: a scene \<open>x\<close> above its minimum
  \<open>m\<close> ends at \<open>max m (x * scale)\<close>, which is convex in \<open>x\<close> and so lies below its
  chord over \<open>[m, m + epsilon]\<close>.\<close>

lemma final_scaling_excess:
  fixes a m :: "real list" and cap \<mu> p :: real
  assumes len: "length m = length a"
    and pos: "0 < cap" "0 < p" "p * \<mu> = cap"
    and each: "\<forall>i<length a. (m ! i = \<mu> \<and> \<mu> \<le> a ! i \<and> a ! i \<le> \<mu> + epsilon) \<or> (m ! i = 0 \<and> a ! i = 0)"
    and summ: "sum_list m = cap"
    and tot: "cap < sum_list a" "sum_list a - cap \<le> p * epsilon"
  shows "sum_list (map (\<lambda>i. max (m ! i) (a ! i * (cap / sum_list a))) [0..<length a])
           \<le> cap + p * epsilon / 4"
proof -
  define T where "T = sum_list a"
  define D where "D = T - cap"
  define s where "s = cap / T"
  define u where "u = D / p"
  define K where "K = s * (epsilon - u) / epsilon"
  have T: "0 < T" "cap < T" using tot pos by (simp_all add: T_def)
  have D: "0 < D" "D \<le> p * epsilon" using tot by (simp_all add: D_def T_def)
  have s: "0 < s" "s \<le> 1" using T pos by (simp_all add: s_def)
  have u: "0 < u" "u \<le> epsilon" using D pos by (simp_all add: u_def field_simps)
  have mu: "\<mu> = cap / p" using pos by (simp add: field_simps)
  have su: "s * u = \<mu> * (1 - s)"
    using T pos by (simp add: s_def u_def D_def mu field_simps)
  have K: "0 \<le> K" using s u epsilon_pos by (simp add: K_def)
  have point: "max (m ! i) (a ! i * s) \<le> m ! i + K * (a ! i - m ! i)" if i: "i < length a" for i
  proof -
    from each i consider "m ! i = \<mu>" "\<mu> \<le> a ! i" "a ! i \<le> \<mu> + epsilon" | "m ! i = 0" "a ! i = 0"
      by blast
    then show ?thesis
    proof cases
      case 1
      define \<delta> where "\<delta> = a ! i - \<mu>"
      have \<delta>: "0 \<le> \<delta>" "\<delta> \<le> epsilon" using 1 by (simp_all add: \<delta>_def)
      have a: "a ! i = \<mu> + \<delta>" by (simp add: \<delta>_def)
      have "s * u * (\<delta> / epsilon) \<le> s * u * 1"
        using \<delta> s u epsilon_pos by (intro mult_left_mono) simp_all
      then have "s * u * \<delta> / epsilon \<le> \<mu> * (1 - s)" using su by simp
      moreover have "K * \<delta> = s * \<delta> - s * u * \<delta> / epsilon"
        using epsilon_pos by (simp add: K_def field_simps)
      ultimately have "(\<mu> + \<delta>) * s \<le> \<mu> + K * \<delta>"
        by (simp add: algebra_simps)
      moreover have "0 \<le> K * \<delta>" using K \<delta> by simp
      ultimately show ?thesis using 1 by (simp add: a)
    next
      case 2
      then show ?thesis by simp
    qed
  qed
  have "sum_list (map (\<lambda>i. max (m ! i) (a ! i * s)) [0..<length a])
          = (\<Sum>i = 0..<length a. max (m ! i) (a ! i * s))"
    by (simp add: interv_sum_list_conv_sum_set_nat)
  also have "\<dots> \<le> (\<Sum>i = 0..<length a. m ! i + K * (a ! i - m ! i))"
    using point by (intro sum_mono) simp
  also have "\<dots> = cap + K * D"
  proof -
    have e1: "(\<Sum>i = 0..<length a. m ! i + K * (a ! i - m ! i))
                = (\<Sum>i = 0..<length a. m ! i) + (\<Sum>i = 0..<length a. K * (a ! i - m ! i))"
      by (rule sum.distrib)
    have e2: "(\<Sum>i = 0..<length a. K * (a ! i - m ! i)) = K * (\<Sum>i = 0..<length a. a ! i - m ! i)"
      by (rule sum_distrib_left [symmetric])
    have e3: "(\<Sum>i = 0..<length a. a ! i - m ! i)
                = (\<Sum>i = 0..<length a. a ! i) - (\<Sum>i = 0..<length a. m ! i)"
      by (rule sum_subtractf)
    have e4: "(\<Sum>i = 0..<length a. m ! i) = cap"
      using summ len by (simp add: sum_list_sum_nth)
    have e5: "(\<Sum>i = 0..<length a. a ! i) = T"
      by (simp add: T_def sum_list_sum_nth)
    show ?thesis by (simp only: e1 e2 e3 e4 e5 D_def)
  qed
  finally have bound: "sum_list (map (\<lambda>i. max (m ! i) (a ! i * s)) [0..<length a]) \<le> cap + K * D" .
  have "K * D = s * (p * (u * (epsilon - u)) / epsilon)"
    using pos epsilon_pos by (simp add: K_def u_def field_simps)
  also have "\<dots> \<le> 1 * (p * (epsilon * epsilon / 4) / epsilon)"
  proof (intro mult_mono)
    show "s \<le> 1" by (rule s)
    show "p * (u * (epsilon - u)) / epsilon \<le> p * (epsilon * epsilon / 4) / epsilon"
      using quarter_product [of u epsilon] pos epsilon_pos
      by (intro divide_right_mono mult_left_mono) simp_all
    show "0 \<le> (1::real)" by simp
    show "0 \<le> p * (u * (epsilon - u)) / epsilon"
      using pos u epsilon_pos by simp
  qed
  also have "\<dots> = p * epsilon / 4" using epsilon_pos by simp
  finally show ?thesis using bound by (simp add: s_def T_def)
qed

lemma sum_list_scaled:
  fixes f :: "'a \<Rightarrow> real"
  shows "(\<Sum>x\<leftarrow>xs. f x / T * c) = (\<Sum>x\<leftarrow>xs. f x) / T * c"
  by (induction xs) (simp_all add: add_divide_distrib distrib_right)

lemma sceneMinimums_total:
  "sum_list (sceneMinimums scenes) = real (positiveSceneCount scenes) * computedMinimum scenes"
  by (simp add: sceneMinimums_def positiveSceneCount_def comp_def sum_list_if_const)

lemma clampedDurations_total:
  assumes T: "0 < (\<Sum>s\<leftarrow>scenes. sanitiseDuration (duration s))"
  shows "sum_list (clampedDurations scenes) \<le> 2 * PREVIEW_MAX_TOTAL_DURATION_SECONDS"
proof -
  define T where "T = (\<Sum>s\<leftarrow>scenes. sanitiseDuration (duration s))"
  have pc: "0 < positiveSceneCount scenes" using assms by (rule positiveSceneCount_pos)
  have dm: "0 < computedMinimum scenes" using pc by (rule computedMinimum_pos)
  have Tpos: "0 < T" using assms by (simp add: T_def)
  have "sum_list (clampedDurations scenes)
          \<le> (\<Sum>s\<leftarrow>scenes. (if sanitiseDuration (duration s) > 0 then computedMinimum scenes else 0)
                 + sanitiseDuration (duration s) / T * PREVIEW_MAX_TOTAL_DURATION_SECONDS)"
    unfolding clampedDurations_def T_def [symmetric] comp_def
  proof (intro sum_list_mono)
    fix s
    have "0 \<le> sanitiseDuration (duration s) / T * PREVIEW_MAX_TOTAL_DURATION_SECONDS"
      using sanitise_nonneg [of "duration s"] Tpos
      by (simp add: PREVIEW_MAX_TOTAL_DURATION_SECONDS_def)
    then show "(if 0 < sanitiseDuration (duration s)
           then max (computedMinimum scenes)
                    (sanitiseDuration (duration s) / T * PREVIEW_MAX_TOTAL_DURATION_SECONDS)
           else 0)
          \<le> (if 0 < sanitiseDuration (duration s) then computedMinimum scenes else 0)
             + sanitiseDuration (duration s) / T * PREVIEW_MAX_TOTAL_DURATION_SECONDS"
      using dm by simp
  qed
  also have "\<dots> = real (positiveSceneCount scenes) * computedMinimum scenes
                  + T / T * PREVIEW_MAX_TOTAL_DURATION_SECONDS"
  proof -
    have A: "(\<Sum>s\<leftarrow>scenes. if sanitiseDuration (duration s) > 0 then computedMinimum scenes else 0)
               = real (positiveSceneCount scenes) * computedMinimum scenes"
      by (simp add: sum_list_if_const positiveSceneCount_def)
    have B: "(\<Sum>s\<leftarrow>scenes. sanitiseDuration (duration s) / T * PREVIEW_MAX_TOTAL_DURATION_SECONDS)
               = T / T * PREVIEW_MAX_TOTAL_DURATION_SECONDS"
      unfolding T_def by (rule sum_list_scaled)
    show ?thesis by (simp only: sum_list_addf A B)
  qed
  finally have "sum_list (clampedDurations scenes)
      \<le> real (positiveSceneCount scenes) * computedMinimum scenes
          + T / T * PREVIEW_MAX_TOTAL_DURATION_SECONDS" .
  then show ?thesis
    using computedMinimum_total [OF pc] Tpos by simp
qed

lemma budget_of_passes: "900000 \<le> epsilon * 4 ^ 1000"
proof -
  have "(4::real) ^ 15 \<le> 4 ^ 1000" by (rule power_increasing) simp_all
  moreover have "(4::real) ^ 15 = 1073741824" by simp
  ultimately have "(1073741824::real) \<le> 4 ^ 1000" by simp
  then have "epsilon * 1073741824 \<le> epsilon * 4 ^ 1000"
    using epsilon_pos by (intro mult_left_mono) simp_all
  then show ?thesis by (simp add: epsilon_def)
qed

lemma computedMinimum_many:
  assumes "20 \<le> positiveSceneCount scenes"
  shows "real (positiveSceneCount scenes) * computedMinimum scenes = PREVIEW_MAX_TOTAL_DURATION_SECONDS"
proof -
  have p: "20 \<le> real (positiveSceneCount scenes)" using assms by simp
  then have "PREVIEW_MAX_TOTAL_DURATION_SECONDS / real (positiveSceneCount scenes)
               \<le> PREVIEW_MIN_SCENE_DURATION_SECONDS"
    by (simp add: PREVIEW_MAX_TOTAL_DURATION_SECONDS_def PREVIEW_MIN_SCENE_DURATION_SECONDS_def
        field_simps)
  then have "computedMinimum scenes
               = PREVIEW_MAX_TOTAL_DURATION_SECONDS / real (positiveSceneCount scenes)"
    by (simp add: computedMinimum_def)
  then show ?thesis using p by simp
qed

lemma twenty_total: "(\<Sum>s\<leftarrow>twentyScenes. sanitiseDuration (duration s)) = 30"
  by (simp add: twentyScenes_def sceneOfDuration_def sceneOfNumber_def)

lemma twenty_count: "positiveSceneCount twentyScenes = 20"
  by (simp add: positiveSceneCount_def twentyScenes_def sceneOfDuration_def sceneOfNumber_def)

text \<open>
  Claim C1, as the code has it. For every scene list whose total sanitised duration
  exceeds the preview cap of 15 seconds, no positive-duration scene's effective duration
  is below the computed minimum \<open>min(0.75, cap / positiveSceneCount)\<close>, and the effective
  durations sum to at most \<open>cap + epsilon\<close> (\<open>epsilon = 0.001\<close>) when fewer than 20
  scenes have a positive duration, and to at most \<open>cap + positiveSceneCount * epsilon / 4\<close>
  otherwise, whatever the number of scenes. The bound \<open>cap + epsilon\<close> of the claim does
  not hold from 20 positive-duration scenes on: the minimums then add up to the cap, the
  redistribution loop stops as soon as no scene has more than \<open>epsilon\<close> of slack, and
  the last-resort scaling never goes below a minimum.
\<close>

theorem preview_compression_bounds:
  assumes over: "PREVIEW_MAX_TOTAL_DURATION_SECONDS < (\<Sum>s\<leftarrow>scenes. sanitiseDuration (duration s))"
  shows "(\<forall>i<length scenes. isFinitePositive (duration (scenes ! i)) \<longrightarrow>
            computedMinimum scenes \<le> computeEffectiveDurations scenes preview ! i) \<and>
         sum_list (computeEffectiveDurations scenes preview)
           \<le> PREVIEW_MAX_TOTAL_DURATION_SECONDS
              + (if positiveSceneCount scenes < 20 then epsilon
                 else real (positiveSceneCount scenes) * epsilon / 4)"
proof -
  let ?r = "computeEffectiveDurations scenes preview"
  let ?C = "clampedDurations scenes" and ?M = "sceneMinimums scenes"
  define cap where "cap = PREVIEW_MAX_TOTAL_DURATION_SECONDS"
  define p where "p = real (positiveSceneCount scenes)"
  define B where "B = (if positiveSceneCount scenes < 20 then epsilon else p * epsilon / 4)"
  have cap15: "cap = 15" by (simp add: cap_def PREVIEW_MAX_TOTAL_DURATION_SECONDS_def)
  have T: "0 < (\<Sum>s\<leftarrow>scenes. sanitiseDuration (duration s))"
    using over by (simp add: PREVIEW_MAX_TOTAL_DURATION_SECONDS_def)
  have pc: "0 < positiveSceneCount scenes" using T by (rule positiveSceneCount_pos)
  have ppos: "0 < p" using pc by (simp add: p_def)
  have dmpos: "0 < computedMinimum scenes" using pc by (rule computedMinimum_pos)
  have r: "?r = clampDurationsWithMinimums ?C ?M cap"
    unfolding cap_def using over by (rule compress_unfold)
  have len: "length ?M = length ?C" by (simp add: compress_lengths)
  have n: "length ?C = length scenes" by (simp add: compress_lengths)
  have pre: "\<forall>i<length ?C. 0 \<le> ?M ! i \<and> ?M ! i \<le> ?C ! i"
    using pc by (rule compress_pre)
  have cap0: "0 \<le> cap" by (simp add: cap15)
  have pw: "length ?r = length scenes"
    "\<And>i. i < length scenes \<Longrightarrow> ?M ! i \<le> ?r ! i \<and> ?r ! i \<le> ?C ! i"
    using clampDurations_pointwise [OF len pre cap0] by (simp_all add: r compress_lengths)
  have minimum: "\<forall>i<length scenes. isFinitePositive (duration (scenes ! i)) \<longrightarrow>
            computedMinimum scenes \<le> ?r ! i"
  proof (intro allI impI)
    fix i assume i: "i < length scenes" and "isFinitePositive (duration (scenes ! i))"
    then have "?M ! i = computedMinimum scenes"
      by (simp add: sceneMinimums_nth sanitise_pos_iff)
    then show "computedMinimum scenes \<le> ?r ! i" using pw(2) [OF i] by simp
  qed
  have B: "epsilon \<le> B" "0 \<le> B"
    using epsilon_pos by (auto simp: B_def p_def)
  have sumC: "sum_list ?C \<le> 2 * cap"
    unfolding cap_def using T by (rule clampedDurations_total)
  have rC: "sum_list ?r \<le> sum_list ?C"
    using pw by (intro sum_list_pointwise_le) (simp_all add: n)
  have total: "sum_list ?r \<le> cap + B"
  proof (cases "60000 \<le> p")
    case True
    then have "\<not> positiveSceneCount scenes < 20" by (simp add: p_def)
    then have "cap \<le> B" using True by (simp add: B_def cap15 epsilon_def)
    then show ?thesis using rC sumC by simp
  next
    case few: False
    show ?thesis
    proof (cases "cap < sum_list ?C")
      case False
      then show ?thesis using rC B by simp
    next
      case overC: True
      have "real (length (adjustableIndices ?C ?M)) \<le> p"
        using compress_adjustable [of scenes] by (simp add: p_def)
      then have "real (length (adjustableIndices ?C ?M)) * (sum_list ?C - cap) \<le> 60000 * 15"
        using few overC sumC by (intro mult_mono) (simp_all add: cap15)
      then have pot: "real (length (adjustableIndices ?C ?M)) * (sum_list ?C - cap) \<le> epsilon * 4 ^ 1000"
        using budget_of_passes by simp
      from clampDurations_result [OF len pre cap0 overC pot]
      obtain a' where low: "lowered ?M ?C a'"
        and stop: "sum_list a' - cap \<le> epsilon \<or> adjustableIndices a' ?M = []"
        and res: "clampDurationsWithMinimums ?C ?M cap =
           (if cap < sum_list a'
            then map (\<lambda>i. max (?M ! i) (a' ! i * (cap / sum_list a'))) [0..<length ?C]
            else a')"
        by blast
      have la: "length a' = length scenes" using low by (simp add: lowered_def n)
      have a': "?M ! i \<le> a' ! i"
        "sanitiseDuration (duration (scenes ! i)) \<le> 0 \<Longrightarrow> a' ! i = 0"
        if i: "i < length scenes" for i
      proof -
        have "i < length ?C" using i by (simp add: n)
        then have *: "?M ! i \<le> ?C ! i \<longrightarrow> ?M ! i \<le> a' ! i" "?C ! i \<le> ?M ! i \<longrightarrow> a' ! i = ?C ! i"
          using low by (simp_all add: lowered_def)
        show "?M ! i \<le> a' ! i" using * pre i by (simp add: n)
        show "a' ! i = 0" if "sanitiseDuration (duration (scenes ! i)) \<le> 0"
          using * that i by (simp add: sceneMinimums_nth clampedDurations_nth)
      qed
      show ?thesis
      proof (cases "cap < sum_list a'")
        case False
        then show ?thesis using res B by (simp add: r)
      next
        case overA: True
        define s where "s = cap / sum_list a'"
        have s: "0 \<le> s" "s \<le> 1" using overA cap0 by (simp_all add: s_def cap15)
        have req: "?r = map (\<lambda>i. max (?M ! i) (a' ! i * s)) [0..<length scenes]"
          using overA res by (simp add: r s_def n)
        have ra: "sum_list ?r \<le> sum_list a'"
        proof (rule sum_list_pointwise_le)
          show "length ?r = length a'" by (simp add: pw(1) la)
          show "\<forall>i<length ?r. ?r ! i \<le> a' ! i"
          proof (intro allI impI)
            fix i assume "i < length ?r"
            then have i: "i < length scenes" by (simp add: pw(1))
            have "0 \<le> ?M ! i" using pre i by (simp add: n)
            then have "0 \<le> a' ! i" using a'(1) [OF i] by simp
            then have "a' ! i * s \<le> a' ! i * 1" using s by (intro mult_left_mono) simp_all
            then show "?r ! i \<le> a' ! i" using a'(1) [OF i] i by (simp add: req)
          qed
        qed
        from stop show ?thesis
        proof
          assume "sum_list a' - cap \<le> epsilon"
          then show ?thesis using ra B by simp
        next
          assume none: "adjustableIndices a' ?M = []"
          have near: "a' ! i \<le> ?M ! i + epsilon" if i: "i < length scenes" for i
          proof -
            have "i \<notin> set (adjustableIndices a' ?M)" using none by simp
            then show ?thesis using i la by (simp add: adjustableIndices_def)
          qed
          let ?b = "map (\<lambda>s. if 0 < sanitiseDuration (duration s)
                               then computedMinimum scenes + epsilon else 0) scenes"
          have "sum_list a' \<le> sum_list ?b"
          proof (rule sum_list_pointwise_le)
            show "length a' = length ?b" by (simp add: la)
            show "\<forall>i<length a'. a' ! i \<le> ?b ! i"
            proof (intro allI impI)
              fix i assume "i < length a'"
              then have i: "i < length scenes" by (simp add: la)
              show "a' ! i \<le> ?b ! i"
                using near [OF i] a'(2) [OF i] i
                by (auto simp: sceneMinimums_nth split: if_splits)
            qed
          qed
          also have "sum_list ?b = p * (computedMinimum scenes + epsilon)"
            using sum_list_if_const [of "\<lambda>s. 0 < sanitiseDuration (duration s)" _ scenes]
            by (simp add: positiveSceneCount_def p_def)
          finally have upper: "sum_list a' \<le> p * computedMinimum scenes + p * epsilon"
            by (simp add: algebra_simps)
          show ?thesis
          proof (cases "positiveSceneCount scenes < 20")
            case True
            then have "p \<le> 19" by (simp add: p_def)
            moreover have "computedMinimum scenes + epsilon \<le> 751 / 1000"
              by (simp add: computedMinimum_def PREVIEW_MIN_SCENE_DURATION_SECONDS_def epsilon_def
                  min_le_iff_disj)
            moreover have "0 \<le> computedMinimum scenes + epsilon"
              using dmpos epsilon_pos by simp
            ultimately have "p * (computedMinimum scenes + epsilon) \<le> 19 * (751 / 1000)"
              using ppos by (intro mult_mono) simp_all
            then have "sum_list a' < cap" using upper by (simp add: cap15 algebra_simps)
            then show ?thesis using overA by simp
          next
            case False
            then have many: "20 \<le> positiveSceneCount scenes" by simp
            have pm: "p * computedMinimum scenes = cap"
              unfolding p_def cap_def using many by (rule computedMinimum_many)
            have each: "\<forall>i<length a'.
                (?M ! i = computedMinimum scenes \<and> computedMinimum scenes \<le> a' ! i \<and>
                   a' ! i \<le> computedMinimum scenes + epsilon) \<or> (?M ! i = 0 \<and> a' ! i = 0)"
            proof (intro allI impI)
              fix i assume "i < length a'"
              then have i: "i < length scenes" by (simp add: la)
              show "(?M ! i = computedMinimum scenes \<and> computedMinimum scenes \<le> a' ! i \<and>
                   a' ! i \<le> computedMinimum scenes + epsilon) \<or> (?M ! i = 0 \<and> a' ! i = 0)"
                using near [OF i] a'(1) [OF i] a'(2) [OF i] i
                by (auto simp: sceneMinimums_nth split: if_splits)
            qed
            have summ: "sum_list ?M = cap" using pm by (simp add: sceneMinimums_total p_def)
            have tot2: "sum_list a' - cap \<le> p * epsilon" using upper pm by simp
            have lm: "length ?M = length a'" by (simp add: la compress_lengths)
            have capp: "0 < cap" by (simp add: cap15)
            from final_scaling_excess [OF lm capp ppos pm each summ overA tot2]
            have "sum_list ?r \<le> cap + p * epsilon / 4"
              by (simp add: req s_def la)
            then show ?thesis using False by (simp add: B_def)
          qed
        qed
      qed
    qed
  qed
  show ?thesis
    using minimum total unfolding B_def cap_def p_def by (rule conjI)
qed

theorem preview_compression_bounds_witness:
  "PREVIEW_MAX_TOTAL_DURATION_SECONDS < (\<Sum>s\<leftarrow>threeScenes. sanitiseDuration (duration s)) \<and>
   isFinitePositive (duration (threeScenes ! 1)) \<and>
   computedMinimum threeScenes \<le> computeEffectiveDurations threeScenes preview ! 1 \<and>
   positiveSceneCount threeScenes < 20 \<and>
   sum_list (computeEffectiveDurations threeScenes preview)
     \<le> PREVIEW_MAX_TOTAL_DURATION_SECONDS + epsilon \<and>
   PREVIEW_MAX_TOTAL_DURATION_SECONDS < (\<Sum>s\<leftarrow>twentyScenes. sanitiseDuration (duration s)) \<and>
   positiveSceneCount twentyScenes = 20 \<and>
   sum_list (computeEffectiveDurations twentyScenes preview)
     \<le> PREVIEW_MAX_TOTAL_DURATION_SECONDS + 20 * epsilon / 4"
proof -
  have over: "PREVIEW_MAX_TOTAL_DURATION_SECONDS < (\<Sum>s\<leftarrow>threeScenes. sanitiseDuration (duration s))"
    by (simp add: threeScenes_def sceneOfDuration_def sceneOfNumber_def
        PREVIEW_MAX_TOTAL_DURATION_SECONDS_def)
  have i: "1 < length threeScenes" "isFinitePositive (duration (threeScenes ! 1))"
    by (simp_all add: threeScenes_def sceneOfDuration_def sceneOfNumber_def)
  have few: "positiveSceneCount threeScenes < 20"
    by (simp add: positiveSceneCount_def threeScenes_def)
  have over20: "PREVIEW_MAX_TOTAL_DURATION_SECONDS < (\<Sum>s\<leftarrow>twentyScenes. sanitiseDuration (duration s))"
    by (simp add: twenty_total PREVIEW_MAX_TOTAL_DURATION_SECONDS_def)
  have three: "computedMinimum threeScenes \<le> computeEffectiveDurations threeScenes preview ! 1"
    "sum_list (computeEffectiveDurations threeScenes preview)
       \<le> PREVIEW_MAX_TOTAL_DURATION_SECONDS + epsilon"
    using i few preview_compression_bounds [OF over] by auto
  have twenty: "sum_list (computeEffectiveDurations twentyScenes preview)
       \<le> PREVIEW_MAX_TOTAL_DURATION_SECONDS + 20 * epsilon / 4"
    using preview_compression_bounds [OF over20] by (simp add: twenty_count)
  show ?thesis
    using over i(2) few three over20 twenty twenty_count by simp
qed

text \<open>
  The claim as stated fails on \<open>twentyScenes\<close>: the clamped durations are ten of
  0.7509 s and ten of 0.75 s, 15.009 s in total; no scene is adjustable, the loop stops
  at once, and the scaling by \<open>15 / 15.009\<close> leaves ten scenes at 0.75 s and ten at
  \<open>7509 / 10006\<close> s, which sum to more than 15.004 s.
\<close>

lemma clampLoop_no_adjustable:
  "adjustableIndices a m = [] \<Longrightarrow> clampLoop n m t a tot = (a, tot)"
  by (cases n) (simp_all add: Let_def)

lemma clampDurations_no_adjustable:
  assumes "d \<noteq> []" "t < sum_list d" "adjustableIndices d m = []"
  shows "clampDurationsWithMinimums d m t =
           map (\<lambda>i. max (m ! i) (d ! i * (t / sum_list d))) [0..<length d]"
  using assms by (simp add: clampDurationsWithMinimums_def Let_def clampLoop_no_adjustable)

lemma twenty_minimum: "computedMinimum twentyScenes = 3 / 4"
  by (simp add: computedMinimum_def twenty_count PREVIEW_MAX_TOTAL_DURATION_SECONDS_def
      PREVIEW_MIN_SCENE_DURATION_SECONDS_def)

lemma twenty_minimums: "sceneMinimums twentyScenes = replicate 20 (3 / 4)"
  unfolding sceneMinimums_def twenty_minimum
  by (simp add: twentyScenes_def sceneOfDuration_def sceneOfNumber_def numeral_eq_Suc)

lemma twenty_clamped: "clampedDurations twentyScenes =
    [7509 / 10000, 7509 / 10000, 7509 / 10000, 7509 / 10000, 7509 / 10000,
     7509 / 10000, 7509 / 10000, 7509 / 10000, 7509 / 10000, 7509 / 10000,
     3 / 4, 3 / 4, 3 / 4, 3 / 4, 3 / 4, 3 / 4, 3 / 4, 3 / 4, 3 / 4, 3 / 4]"
  unfolding clampedDurations_def twenty_minimum twenty_total PREVIEW_MAX_TOTAL_DURATION_SECONDS_def
  by (simp add: twentyScenes_def sceneOfDuration_def sceneOfNumber_def)

lemma twenty_adjustable: "adjustableIndices (clampedDurations twentyScenes) (sceneMinimums twentyScenes) = []"
  unfolding twenty_minimums twenty_clamped by (simp add: adjustableIndices_def epsilon_def numeral_eq_Suc)

lemma twenty_clamped_total: "sum_list (clampedDurations twentyScenes) = 15009 / 1000"
  unfolding twenty_clamped by simp

lemma twenty_scaled: "computeEffectiveDurations twentyScenes preview =
    map (\<lambda>i. max (sceneMinimums twentyScenes ! i)
                (clampedDurations twentyScenes ! i * (15 / (15009 / 1000)))) [0..<20]"
proof -
  have over: "PREVIEW_MAX_TOTAL_DURATION_SECONDS < (\<Sum>s\<leftarrow>twentyScenes. sanitiseDuration (duration s))"
    by (simp add: twenty_total PREVIEW_MAX_TOTAL_DURATION_SECONDS_def)
  have ne: "clampedDurations twentyScenes \<noteq> []" unfolding twenty_clamped by simp
  have gt: "PREVIEW_MAX_TOTAL_DURATION_SECONDS < sum_list (clampedDurations twentyScenes)"
    by (simp add: twenty_clamped_total PREVIEW_MAX_TOTAL_DURATION_SECONDS_def)
  have len: "length (clampedDurations twentyScenes) = 20" unfolding twenty_clamped by simp
  show ?thesis
    unfolding compress_unfold [OF over] clampDurations_no_adjustable [OF ne gt twenty_adjustable] twenty_clamped_total len
    by (simp add: PREVIEW_MAX_TOTAL_DURATION_SECONDS_def)
qed

lemma twenty_effective: "computeEffectiveDurations twentyScenes preview =
    [7509 / 10006, 7509 / 10006, 7509 / 10006, 7509 / 10006, 7509 / 10006,
     7509 / 10006, 7509 / 10006, 7509 / 10006, 7509 / 10006, 7509 / 10006,
     3 / 4, 3 / 4, 3 / 4, 3 / 4, 3 / 4, 3 / 4, 3 / 4, 3 / 4, 3 / 4, 3 / 4]"
  unfolding twenty_scaled twenty_minimums twenty_clamped by (simp add: numeral_eq_Suc)

theorem preview_sum_exceeds_cap_plus_epsilon:
  "PREVIEW_MAX_TOTAL_DURATION_SECONDS < (\<Sum>s\<leftarrow>twentyScenes. sanitiseDuration (duration s)) \<and>
   \<not> sum_list (computeEffectiveDurations twentyScenes preview)
       \<le> PREVIEW_MAX_TOTAL_DURATION_SECONDS + epsilon"
  unfolding twenty_effective twenty_total by (simp add: PREVIEW_MAX_TOTAL_DURATION_SECONDS_def epsilon_def)

subsection \<open>Durations that are not finite positive numbers\<close>

lemma effective_invalid_zero:
  assumes i: "i < length scenes" and inv: "\<not> isFinitePositive (duration (scenes ! i))"
  shows "computeEffectiveDurations scenes renderMode ! i = 0"
proof -
  have z: "sanitiseDuration (duration (scenes ! i)) = 0" using inv by (rule sanitise_invalid)
  show ?thesis
  proof (cases "renderMode = preview \<and> PREVIEW_MAX_TOTAL_DURATION_SECONDS < (\<Sum>s\<leftarrow>scenes. sanitiseDuration (duration s))")
    case True
    then have T: "0 < (\<Sum>s\<leftarrow>scenes. sanitiseDuration (duration s))"
      by (simp add: PREVIEW_MAX_TOTAL_DURATION_SECONDS_def)
    have pre: "\<forall>i<length (clampedDurations scenes).
           0 \<le> sceneMinimums scenes ! i \<and> sceneMinimums scenes ! i \<le> clampedDurations scenes ! i"
      using positiveSceneCount_pos [OF T] by (rule compress_pre)
    have cap: "0 \<le> PREVIEW_MAX_TOTAL_DURATION_SECONDS"
      by (simp add: PREVIEW_MAX_TOTAL_DURATION_SECONDS_def)
    have "clampedDurations scenes ! i = sceneMinimums scenes ! i" "sceneMinimums scenes ! i = 0"
      using i z by (simp_all add: sceneMinimums_nth clampedDurations_nth)
    then show ?thesis
      using clampDurations_pointwise [OF _ pre cap] i True
      by (simp add: compress_unfold compress_lengths)
  next
    case False
    then show ?thesis using i z by (auto simp: computeEffectiveDurations_def Let_def)
  qed
qed

text \<open>
  Claim C10. For every scene whose duration is not a finite positive number (NaN,
  infinite, zero or negative), \<open>computeEffectiveDurations\<close> returns 0 for that scene in
  both modes, and \<open>buildRenderPlan\<close> gives the item the fallback minimum duration of its
  mode (0.75 s in preview, \<open>max(1.2, 1 / fps)\<close> s in download), so that its
  \<open>frameCount\<close> is at least 1.
\<close>

theorem invalid_duration_gets_fallback_minimum:
  assumes i: "i < length scenes" and inv: "\<not> isFinitePositive (duration (scenes ! i))"
    and rate: "0 < rate"
  shows "computeEffectiveDurations scenes renderMode ! i = 0 \<and>
         durationSeconds (buildRenderPlan scenes rate renderMode ! i) =
           (case renderMode of preview \<Rightarrow> 75 / 100 | download \<Rightarrow> max (12 / 10) (1 / rate)) \<and>
         1 \<le> frameCount (buildRenderPlan scenes rate renderMode ! i)"
  using i effective_invalid_zero [OF i inv, of renderMode]
  by (cases renderMode)
     (simp_all add: buildRenderPlan_def Let_def safeDuration_def effective_length
        PREVIEW_MIN_SCENE_DURATION_SECONDS_def)

theorem invalid_duration_gets_fallback_minimum_witness:
  "\<not> isFinitePositive (duration (scenesWithNaN ! 1)) \<and>
   computeEffectiveDurations scenesWithNaN download ! 1 = 0 \<and>
   durationSeconds (buildRenderPlan scenesWithNaN 24 download ! 1) = 12 / 10 \<and>
   1 \<le> frameCount (buildRenderPlan scenesWithNaN 24 download ! 1)"
proof -
  have i: "1 < length scenesWithNaN"
    and inv: "\<not> isFinitePositive (duration (scenesWithNaN ! 1))"
    by (simp_all add: scenesWithNaN_def sceneOfNumber_def)
  have rate: "(0::real) < 24" by simp
  show ?thesis
    using inv invalid_duration_gets_fallback_minimum [OF i inv rate, of download] by simp
qed

section \<open>Frame timestamps: the claim\<close>

lemma encodeSceneFrames_length [simp]: "length (encodeSceneFrames us n start) = n"
  by (induction n arbitrary: start) simp_all

lemma encodeSceneFrames_nth:
  "i < n \<Longrightarrow> encodeSceneFrames us n start ! i = int (start + i) * us"
  by (induction n arbitrary: start i) (auto simp: nth_Cons split: nat.splits)

lemma encodePlan_nth:
  "i < length (encodePlan us plan start) \<Longrightarrow> encodePlan us plan start ! i = int (start + i) * us"
proof (induction plan arbitrary: start i)
  case Nil
  then show ?case by simp
next
  case (Cons item plan)
  define n where "n = nat (frameCount item)"
  show ?case
  proof (cases "i < n")
    case True
    then show ?thesis
      by (simp add: Let_def n_def [symmetric] nth_append encodeSceneFrames_nth)
  next
    case False
    then have "i - n < length (encodePlan us plan (start + n))"
      using Cons.prems by (simp add: Let_def n_def [symmetric])
    from Cons.IH [OF this] False show ?thesis
      by (simp add: Let_def n_def [symmetric] nth_append)
  qed
qed

text \<open>
  Claim C9, as the code has it. In the WebCodecs renderer every frame handed to the
  encoder has the timestamp \<open>frameIndex * Math.round(1_000_000 / fps)\<close> microseconds,
  where \<open>frameIndex\<close> is the zero-based count of frames submitted so far across the whole
  render. The frame duration is rounded to whole microseconds once, before the loop, so
  the timestamp is \<open>frameIndex * (1_000_000 / fps)\<close> only when \<open>fps\<close> divides 1000000.
\<close>

theorem timestamp_is_index_times_rounded_duration:
  "\<forall>frameIndex < length (submittedTimestamps scenes rate renderMode).
     submittedTimestamps scenes rate renderMode ! frameIndex
       = int frameIndex * js_round (1000000 / rate)"
  by (simp add: submittedTimestamps_def frameDurationUS_def encodePlan_nth)

lemma short_download_plan:
  "buildRenderPlan [sceneOfDuration (1 / 10)] 24 download
     = [\<lparr> scene = sceneOfDuration (1 / 10), durationSeconds = 1 / 10, frameCount = 3 \<rparr>]"
  by (simp add: buildRenderPlan_def computeEffectiveDurations_def Let_def safeDuration_def
      sceneOfDuration_def sceneOfNumber_def)

lemma js_round_24: "js_round (1000000 / 24) = 41667"
  by (simp add: js_round_def)

lemma short_download_timestamps:
  "submittedTimestamps [sceneOfDuration (1 / 10)] 24 download = [0, 41667, 83334]"
  unfolding submittedTimestamps_def short_download_plan frameDurationUS_def js_round_24
  by (simp add: numeral_3_eq_3)

theorem timestamp_is_index_times_rounded_duration_witness:
  "(1::nat) < length (submittedTimestamps [sceneOfDuration (1 / 10)] 24 download) \<and>
   submittedTimestamps [sceneOfDuration (1 / 10)] 24 download ! 1 = int 1 * js_round (1000000 / 24)"
proof -
  have h: "(1::nat) < length (submittedTimestamps [sceneOfDuration (1 / 10)] 24 download)"
    by (simp add: short_download_timestamps)
  show ?thesis
    using h timestamp_is_index_times_rounded_duration [of "[sceneOfDuration (1 / 10)]" 24 download]
    by blast
qed

text \<open>
  The claim as stated fails at 24 frames per second, the frame rate of the download
  mode: a scene of 0.1 s has three frames, stamped 0, 41667 and 83334, and 41667 is
  not \<open>1000000 / 24\<close>.
\<close>

theorem timestamp_not_exact_quotient:
  "submittedTimestamps [sceneOfDuration (1 / 10)] 24 download = [0, 41667, 83334] \<and>
   real_of_int (submittedTimestamps [sceneOfDuration (1 / 10)] 24 download ! 1) \<noteq> 1 * (1000000 / 24)"
  by (simp add: short_download_timestamps)

section \<open>Fallback art: the claim\<close>

lemma hash_a: "sceneAccentHash ''a|||'' = 3012859"
  by (simp add: sceneAccentHash_def push_bit_eq_mult)

lemma hash_b: "sceneAccentHash ''a|||b'' = 93398727"
  by (simp add: sceneAccentHash_def push_bit_eq_mult)

lemma color_a: "computeSceneAccentColor sceneAsPlanned = ''#10AC84''"
  by (simp add: computeSceneAccentColor_def sceneAsPlanned_def hash_a ACCENT_COLOR_PALETTE_def)

lemma color_b: "computeSceneAccentColor sceneAfterEdit = ''#1B9CFC''"
  by (simp add: computeSceneAccentColor_def sceneAfterEdit_def sceneAsPlanned_def hash_b
      ACCENT_COLOR_PALETTE_def)

lemma fallback_with_context:
  "createStylizedFallbackImage True s ar =
     StylizedFallback (computeSceneAccentColor s)
       (if ar = ratio_16_9 then 1280 else 720) (if ar = ratio_16_9 then 720 else 1280)"
  by (simp add: createStylizedFallbackImage_def js_round_def Let_def)

lemma three_failures:
  assumes "\<forall>attempt \<le> IMAGE_LOAD_RETRIES. outcomes attempt = AttemptFailed"
  shows "loadAttempts (IMAGE_LOAD_RETRIES + 1) 0 outcomes c src s ar
           = ([300, 600], Inr (createStylizedFallbackImage c s ar))"
proof -
  have o: "outcomes 0 = AttemptFailed" "outcomes (Suc 0) = AttemptFailed"
    "outcomes (Suc (Suc 0)) = AttemptFailed"
    using assms by (simp_all add: IMAGE_LOAD_RETRIES_def)
  have n: "IMAGE_LOAD_RETRIES + 1 = Suc (Suc (Suc 0))" by (simp add: IMAGE_LOAD_RETRIES_def)
  show ?thesis
    unfolding n by (simp add: o IMAGE_LOAD_RETRIES_def INITIAL_RETRY_DELAY_MS_def)
qed

text \<open>
  Claim C8, as the code has it. When every load attempt for a scene's visual source
  fails with an ordinary error, \<open>loadImageWithRetries\<close> sleeps 300 ms and 600 ms between
  the three attempts and then returns the fallback image of \<open>createStylizedFallbackImage\<close>
  instead of failing: with a 2D context, the stylized image drawn from the scene's
  accent colour. The accent colour is a function of the scene's id, keywords, image
  prompt and text together: two scenes that agree on these four get the same colour.
  It is not a function of the id alone.
\<close>

theorem failed_loads_yield_fallback:
  assumes "\<forall>attempt \<le> IMAGE_LOAD_RETRIES. outcomes attempt = AttemptFailed" and "src \<noteq> []"
  shows "snd (loadImageWithRetries outcomes contextAvailable src s ar)
           = Inr (createStylizedFallbackImage contextAvailable s ar) \<and>
         loadImageWithRetries outcomes True src s ar
           = ([300, 600],
              Inr (StylizedFallback (computeSceneAccentColor s)
                     (if ar = ratio_16_9 then 1280 else 720) (if ar = ratio_16_9 then 720 else 1280))) \<and>
         (\<forall>t. scene_id t = scene_id s \<and> scene_keywords t = scene_keywords s \<and>
              imagePrompt t = imagePrompt s \<and> sceneText t = sceneText s \<longrightarrow>
              computeSceneAccentColor t = computeSceneAccentColor s)"
  using assms(2) three_failures [OF assms(1)]
  by (simp add: loadImageWithRetries_def fallback_with_context computeSceneAccentColor_def)

theorem failed_loads_yield_fallback_witness:
  "loadImageWithRetries everyAttemptFails True (footageUrl sceneAsPlanned) sceneAsPlanned ratio_16_9
     = ([300, 600], Inr (StylizedFallback ''#10AC84'' 1280 720))"
proof -
  have a: "\<forall>attempt \<le> IMAGE_LOAD_RETRIES. everyAttemptFails attempt = AttemptFailed"
    by (simp add: everyAttemptFails_def)
  have b: "footageUrl sceneAsPlanned \<noteq> []" by (simp add: sceneAsPlanned_def)
  show ?thesis
    using failed_loads_yield_fallback [OF a b, of True sceneAsPlanned ratio_16_9]
    by (simp add: color_a)
qed

text \<open>
  The claim as stated fails for a scene whose caption is edited: the id stays
  \<open>a\<close>, the key goes from \<open>a|||\<close> to \<open>a|||b\<close>, the hash from 3012859 to 93398727, and
  the colour from the palette's entry 9 to its entry 7.
\<close>

theorem accent_color_not_function_of_id:
  "scene_id sceneAfterEdit = scene_id sceneAsPlanned \<and>
   computeSceneAccentColor sceneAsPlanned = ''#10AC84'' \<and>
   computeSceneAccentColor sceneAfterEdit = ''#1B9CFC'' \<and>
   computeSceneAccentColor sceneAfterEdit \<noteq> computeSceneAccentColor sceneAsPlanned"
  by (simp add: color_a color_b) (simp add: sceneAfterEdit_def)

section \<open>The entry point: the claims\<close>

subsection \<open>Sample runs\<close>

lemma brief_plan:
  "buildRenderPlan [briefScene] 15 preview
     = [\<lparr> scene = briefScene, durationSeconds = 4 / 10, frameCount = 6 \<rparr>]"
  by (simp add: buildRenderPlan_def computeEffectiveDurations_def Let_def safeDuration_def
      briefScene_def sceneOfDuration_def sceneOfNumber_def PREVIEW_MAX_TOTAL_DURATION_SECONDS_def)

lemma one_to_six: "[Suc 0..<7] = [1, 2, 3, 4, 5, 6]"
  by code_simp

lemma brief_reports:
  "renderProgressValues [briefScene] 15 preview
     = [0, 1 / 5, 1 / 5, 199 / 600, 139 / 300, 119 / 200, 109 / 150, 103 / 120, 99 / 100, 1]"
  unfolding renderProgressValues_def brief_plan
  by (simp add: Let_def preloadProgressValues_def updateOverallProgress_def one_to_six)

lemma brief_total: "computeTotalSceneDurationSeconds [briefScene] = 4 / 10"
  by (simp add: computeTotalSceneDurationSeconds_def briefScene_def sceneOfDuration_def
      sceneOfNumber_def)

lemma brief_config:
  "resolveOptimizedRenderConfig preview [briefScene] = getRenderConfig preview"
  unfolding resolveOptimizedRenderConfig_def brief_total Let_def
  by (simp add: getRenderConfig_def
      PREVIEW_FRAME_BUDGET_def MIN_PREVIEW_FPS_def MIN_PREVIEW_BITRATE_def MIN_EFFECTIVE_FPS_def
      LONG_FORM_DURATION_THRESHOLD_SECONDS_def ULTRA_LONG_DURATION_THRESHOLD_SECONDS_def)

lemma preview_options_mode: "optionsMode previewOptions = preview"
  by (simp add: optionsMode_def previewOptions_def)

lemma preview_fps: "fps (getRenderConfig preview) = 15"
  by (simp add: getRenderConfig_def)

lemma has_webcodecs:
  "hasWebCodecsSupport browserWithBoth" "hasWebCodecsSupport browserWithoutMediaRecorder"
  by (simp_all add: hasWebCodecsSupport_def browserWithBoth_def browserWithoutMediaRecorder_def)

lemma undisturbed_context:
  "canvasContextAvailable undisturbedRun" "canvasContextAvailable (undisturbedRun \<lparr> abortAfter := a \<rparr>)"
  by (simp_all add: undisturbedRun_def)

lemma cancelled_first_run:
  "generateVideoWithWebCodecs cancelledAfterFiveFrames [briefScene] ratio_16_9 previewOptions
     (getRenderConfig preview)
   = \<lparr> reported = [0, 1 / 5, 1 / 5, 199 / 600, 139 / 300, 119 / 200, 109 / 150, 103 / 120],
       settled = Inl AbortError \<rparr>"
  by (simp add: generateVideoWithWebCodecs_def cancelledAfterFiveFrames_def undisturbedRun_def
      preview_options_mode preview_fps brief_reports runFromPreload_def Let_def)

lemma rejected_first_run:
  "generateVideoWithWebCodecs encoderRejectsConfiguration [briefScene] ratio_16_9 previewOptions
     (getRenderConfig preview)
   = \<lparr> reported = [0, 1 / 5, 1 / 5], settled = Inl (Error ''Unsupported configuration.'') \<rparr>"
  by (simp add: generateVideoWithWebCodecs_def encoderRejectsConfiguration_def undisturbedRun_def
      preview_options_mode preview_fps brief_reports runFromPreload_def Let_def)

lemma second_run_after_abort:
  "generateWebMWithMediaRecorder browserWithBoth (undisturbedRun \<lparr> abortAfter := Some 0 \<rparr>)
     [briefScene] ratio_16_9 previewOptions (getRenderConfig preview)
   = \<lparr> reported = [0], settled = Inl AbortError \<rparr>"
  by (simp add: generateWebMWithMediaRecorder_def undisturbedRun_def browserWithBoth_def
      preview_options_mode preview_fps brief_reports runFromPreload_def Let_def)

lemma second_run_undisturbed:
  "generateWebMWithMediaRecorder browserWithBoth undisturbedRun
     [briefScene] ratio_16_9 previewOptions (getRenderConfig preview)
   = \<lparr> reported = [0, 1 / 5, 1 / 5, 199 / 600, 139 / 300, 119 / 200, 109 / 150, 103 / 120, 99 / 100, 1],
       settled = Inr \<lparr> mimeType = ''video/webm'', format = webm \<rparr> \<rparr>"
  by (simp add: generateWebMWithMediaRecorder_def undisturbedRun_def browserWithBoth_def
      preview_options_mode preview_fps brief_reports runFromPreload_def Let_def)

lemma second_run_unsupported:
  "generateWebMWithMediaRecorder browserWithoutMediaRecorder script
     [briefScene] ratio_16_9 previewOptions (getRenderConfig preview)
   = (if canvasContextAvailable script
      then \<lparr> reported = [], settled = Inl (Error
              ''MediaRecorder API or canvas.captureStream is not supported in this browser.'') \<rparr>
      else \<lparr> reported = [], settled = Inl (Error ''Failed to get canvas context for video generation.'') \<rparr>)"
  by (simp add: generateWebMWithMediaRecorder_def browserWithoutMediaRecorder_def browserWithBoth_def
      Let_def)

subsection \<open>Choice of the renderer\<close>

text \<open>
  Claim C5. \<open>generateWebMFromScenes\<close> never starts the WebCodecs renderer when
  \<open>hasWebCodecsSupport\<close> reports it unavailable: it starts the MediaRecorder renderer
  alone. When the probe reports it available, the WebCodecs renderer is started first;
  if it resolves, nothing else is started; on any rejection of it the whole render is
  started once more with the MediaRecorder renderer and the same configuration, and the
  call settles as that run does. So the call rejects with an error other than the
  cancellation only if the MediaRecorder renderer has rejected with it.
\<close>

theorem entry_point_backend_selection:
  "let config = resolveOptimizedRenderConfig (optionsMode options) scenes;
       call = generateWebMFromScenes env wc mr scenes ar options;
       first = generateVideoWithWebCodecs wc scenes ar options config;
       second = generateWebMWithMediaRecorder env (afterFirstRun first mr) scenes ar options config;
       only = generateWebMWithMediaRecorder env mr scenes ar options config
   in (\<not> hasWebCodecsSupport env \<longrightarrow>
         attempted call = [(MediaRecorder, config)] \<and> outcome call = settled only) \<and>
      (hasWebCodecsSupport env \<longrightarrow>
         hd (attempted call) = (WebCodecs, config) \<and>
         (\<forall>video. settled first = Inr video \<longrightarrow>
            attempted call = [(WebCodecs, config)] \<and> outcome call = Inr video) \<and>
         (\<forall>e. settled first = Inl e \<longrightarrow>
            attempted call = [(WebCodecs, config), (MediaRecorder, config)] \<and>
            outcome call = settled second)) \<and>
      (\<forall>message. outcome call = Inl (Error message) \<longrightarrow>
         last (attempted call) = (MediaRecorder, config) \<and>
         (if hasWebCodecsSupport env then settled second else settled only) = Inl (Error message))"
  by (auto simp: generateWebMFromScenes_def Let_def split: sum.splits)

theorem entry_point_backend_selection_witness:
  "\<not> hasWebCodecsSupport browserWithoutWebCodecs \<and>
   attempted (generateWebMFromScenes browserWithoutWebCodecs undisturbedRun undisturbedRun
                [briefScene] ratio_16_9 previewOptions)
     = [(MediaRecorder, resolveOptimizedRenderConfig preview [briefScene])]"
proof -
  have h: "\<not> hasWebCodecsSupport browserWithoutWebCodecs"
    by (simp add: hasWebCodecsSupport_def browserWithoutWebCodecs_def browserWithBoth_def)
  show ?thesis
    using h entry_point_backend_selection
      [of previewOptions "[briefScene]" browserWithoutWebCodecs undisturbedRun undisturbedRun ratio_16_9]
    by (simp add: Let_def preview_options_mode)
qed

subsection \<open>Cancellation during the first renderer\<close>

text \<open>
  Claim C6 at the input where the code departs from it. A preview of one scene of
  0.4 s is cancelled when five frames have been encoded by the WebCodecs renderer, which
  rejects with the \<open>AbortError\<close>. The \<open>.catch\<close> handler of \<open>generateWebMFromScenes\<close> does
  not look at the kind of the error and starts the MediaRecorder renderer. In a browser
  without \<open>MediaRecorder\<close> the call then rejects with an ordinary error. In a browser
  with it, the second render is started after the cancellation has been seen, reports
  the progress 0 once more, and only then rejects with the \<open>AbortError\<close>.
\<close>

theorem cancellation_during_webcodecs_starts_fallback:
  "settled (generateVideoWithWebCodecs cancelledAfterFiveFrames [briefScene] ratio_16_9
              previewOptions (resolveOptimizedRenderConfig preview [briefScene])) = Inl AbortError \<and>
   outcome (generateWebMFromScenes browserWithoutMediaRecorder cancelledAfterFiveFrames undisturbedRun
              [briefScene] ratio_16_9 previewOptions)
     = Inl (Error ''MediaRecorder API or canvas.captureStream is not supported in this browser.'') \<and>
   map fst (attempted (generateWebMFromScenes browserWithBoth cancelledAfterFiveFrames undisturbedRun
              [briefScene] ratio_16_9 previewOptions)) = [WebCodecs, MediaRecorder] \<and>
   progress (generateWebMFromScenes browserWithBoth cancelledAfterFiveFrames undisturbedRun
              [briefScene] ratio_16_9 previewOptions)
     = [0, 1 / 5, 1 / 5, 199 / 600, 139 / 300, 119 / 200, 109 / 150, 103 / 120, 0] \<and>
   outcome (generateWebMFromScenes browserWithBoth cancelledAfterFiveFrames undisturbedRun
              [briefScene] ratio_16_9 previewOptions) = Inl AbortError"
  by (simp add: generateWebMFromScenes_def Let_def preview_options_mode brief_config has_webcodecs
      cancelled_first_run afterFirstRun_def second_run_after_abort second_run_unsupported
      undisturbed_context)

subsection \<open>Progress reports\<close>

lemma sorted_map_mono:
  fixes f :: "'a::linorder \<Rightarrow> 'b::linorder"
  assumes "sorted xs" "\<And>x y. x \<in> set xs \<Longrightarrow> y \<in> set xs \<Longrightarrow> x \<le> y \<Longrightarrow> f x \<le> f y"
  shows "sorted (map f xs)"
  using assms by (induction xs) auto

lemma preload_values_range: "\<forall>v \<in> set (preloadProgressValues n). 0 \<le> v \<and> v \<le> 1"
  by (auto simp: preloadProgressValues_def)

lemma preload_values_sorted: "sorted (preloadProgressValues n)"
proof -
  have "sorted (map (\<lambda>completed. real completed / real n) [1..<Suc n])"
    by (rule sorted_map_mono [OF sorted_upt]) (simp add: divide_right_mono)
  then show ?thesis
    by (auto simp: preloadProgressValues_def sorted_append)
qed

lemma update_mono:
  "0 \<le> w \<Longrightarrow> u \<le> v \<Longrightarrow> updateOverallProgress u w b \<le> updateOverallProgress v w b"
  unfolding updateOverallProgress_def
  by (intro min.mono order_refl add_left_mono mult_right_mono)

lemma preload_stage_range:
  assumes "0 \<le> v" "v \<le> 1"
  shows "0 \<le> updateOverallProgress v (2 / 10) 0" "updateOverallProgress v (2 / 10) 0 \<le> 2 / 10"
  using assms by (auto simp: updateOverallProgress_def min_def)

lemma frame_stage_range:
  assumes "0 \<le> v"
  shows "2 / 10 \<le> updateOverallProgress v (79 / 100) (20 / 100)"
    "updateOverallProgress v (79 / 100) (20 / 100) \<le> 99 / 100"
  using assms by (auto simp: updateOverallProgress_def min_def)

lemma render_values:
  "sorted (renderProgressValues scenes rate renderMode) \<and>
   (\<forall>p \<in> set (renderProgressValues scenes rate renderMode). 0 \<le> p \<and> p \<le> 1)"
proof -
  define F where "F = sum_list (map frameCount (buildRenderPlan scenes rate renderMode))"
  define A where
    "A = map (\<lambda>val. updateOverallProgress val (2 / 10) 0) (preloadProgressValues (length scenes))"
  define B where
    "B = (if F > 0
          then map (\<lambda>k. updateOverallProgress (real k / real_of_int F) (79 / 100) (20 / 100))
                 [1..<Suc (nat F)]
          else [])"
  have eq: "renderProgressValues scenes rate renderMode = A @ B @ [1]"
    by (simp add: renderProgressValues_def Let_def A_def B_def F_def)
  have A_range: "\<forall>x \<in> set A. 0 \<le> x \<and> x \<le> 2 / 10"
    using preload_values_range [of "length scenes"] preload_stage_range
    by (auto simp: A_def)
  have A_sorted: "sorted A"
    unfolding A_def
    by (rule sorted_map_mono [OF preload_values_sorted]) (simp add: update_mono)
  have B_range: "\<forall>x \<in> set B. 2 / 10 \<le> x \<and> x \<le> 99 / 100"
    using frame_stage_range by (auto simp: B_def)
  have B_sorted: "sorted B"
  proof (cases "F > 0")
    case True
    have "sorted (map (\<lambda>k. updateOverallProgress (real k / real_of_int F) (79 / 100) (20 / 100))
                 [1..<Suc (nat F)])"
      using True
      by (intro sorted_map_mono [OF sorted_upt] update_mono divide_right_mono) simp_all
    then show ?thesis using True by (simp add: B_def)
  next
    case False
    then show ?thesis by (simp add: B_def)
  qed
  have "sorted (A @ B @ [1])"
    using A_sorted B_sorted A_range B_range by (fastforce simp: sorted_append)
  moreover have "\<forall>p \<in> set (A @ B @ [1]). 0 \<le> p \<and> p \<le> 1"
    using A_range B_range by fastforce
  ultimately show ?thesis by (simp only: eq)
qed

lemma run_is_prefix:
  "\<exists>k. reported (runFromPreload reports script) = take k reports"
proof -
  have "reported (runFromPreload reports script) = reports \<or>
        reported (runFromPreload reports script) \<in> range (\<lambda>k. take k reports)"
    unfolding runFromPreload_def Let_def
    by (auto split: option.splits)
  moreover have "reports = take (length reports) reports" by simp
  ultimately show ?thesis by (metis rangeE)
qed

lemma sorted_take_real: "sorted (xs :: real list) \<Longrightarrow> sorted (take k xs)"
  by (rule sorted_wrt_take)

lemma run_reports:
  "sorted (reported (runFromPreload (renderProgressValues scenes rate renderMode) script)) \<and>
   (\<forall>p \<in> set (reported (runFromPreload (renderProgressValues scenes rate renderMode) script)).
      0 \<le> p \<and> p \<le> 1)"
proof -
  obtain k where k: "reported (runFromPreload (renderProgressValues scenes rate renderMode) script)
      = take k (renderProgressValues scenes rate renderMode)"
    using run_is_prefix by blast
  show ?thesis
    unfolding k using render_values [of scenes rate renderMode]
    by (auto simp: sorted_take_real dest: in_set_takeD)
qed

lemma webcodecs_reports:
  "sorted (reported (generateVideoWithWebCodecs script scenes ar options config)) \<and>
   (\<forall>p \<in> set (reported (generateVideoWithWebCodecs script scenes ar options config)). 0 \<le> p \<and> p \<le> 1)"
  using run_reports [of scenes "fps config" "optionsMode options" script]
  by (simp add: generateVideoWithWebCodecs_def)

lemma mediarecorder_reports:
  "sorted (reported (generateWebMWithMediaRecorder env script scenes ar options config)) \<and>
   (\<forall>p \<in> set (reported (generateWebMWithMediaRecorder env script scenes ar options config)).
      0 \<le> p \<and> p \<le> 1)"
  using run_reports [of scenes "fps config" "optionsMode options" script]
  by (simp add: generateWebMWithMediaRecorder_def Let_def)

text \<open>
  Claim C7, as the code has it. Every value a call passes to the progress callback
  lies in \<open>[0, 1]\<close>; the values of one run of a renderer are non-decreasing; and so are
  those of the whole call when it starts one renderer only. Across the step from the
  WebCodecs renderer to the MediaRecorder renderer the sequence is not monotone: the
  second run preloads again and starts its reports at 0.
\<close>

theorem progress_bounded_and_monotone_per_renderer:
  "(\<forall>p \<in> set (progress (generateWebMFromScenes env wc mr scenes ar options)). 0 \<le> p \<and> p \<le> 1) \<and>
   sorted (reported (generateVideoWithWebCodecs wc scenes ar options config)) \<and>
   sorted (reported (generateWebMWithMediaRecorder env mr scenes ar options config)) \<and>
   (length (attempted (generateWebMFromScenes env wc mr scenes ar options)) = 1 \<longrightarrow>
      sorted (progress (generateWebMFromScenes env wc mr scenes ar options)))"
proof -
  define cfg where "cfg = resolveOptimizedRenderConfig (optionsMode options) scenes"
  note w = webcodecs_reports [of wc scenes ar options cfg]
  note m1 = mediarecorder_reports [of env mr scenes ar options cfg]
  note m2 = mediarecorder_reports
    [of env "afterFirstRun (generateVideoWithWebCodecs wc scenes ar options cfg) mr" scenes ar options cfg]
  have range: "\<forall>p \<in> set (progress (generateWebMFromScenes env wc mr scenes ar options)). 0 \<le> p \<and> p \<le> 1"
    using w m1 m2
    by (auto simp: generateWebMFromScenes_def Let_def cfg_def [symmetric] split: sum.splits)
  have single: "length (attempted (generateWebMFromScenes env wc mr scenes ar options)) = 1 \<longrightarrow>
      sorted (progress (generateWebMFromScenes env wc mr scenes ar options))"
    using w m1
    by (auto simp: generateWebMFromScenes_def Let_def cfg_def [symmetric] split: sum.splits)
  show ?thesis
    using range single webcodecs_reports [of wc scenes ar options config]
      mediarecorder_reports [of env mr scenes ar options config]
    by blast
qed

theorem progress_bounded_and_monotone_per_renderer_witness:
  "length (attempted (generateWebMFromScenes browserWithBoth undisturbedRun undisturbedRun
                        [briefScene] ratio_16_9 previewOptions)) = 1 \<and>
   sorted (progress (generateWebMFromScenes browserWithBoth undisturbedRun undisturbedRun
                       [briefScene] ratio_16_9 previewOptions))"
proof -
  have "settled (generateVideoWithWebCodecs undisturbedRun [briefScene] ratio_16_9 previewOptions
                  (getRenderConfig preview)) = Inr \<lparr> mimeType = ''video/webm'', format = webm \<rparr>"
    by (simp add: generateVideoWithWebCodecs_def undisturbedRun_def
      preview_options_mode preview_fps brief_reports runFromPreload_def Let_def)
  then have one: "length (attempted (generateWebMFromScenes browserWithBoth undisturbedRun undisturbedRun
                        [briefScene] ratio_16_9 previewOptions)) = 1"
    by (simp add: generateWebMFromScenes_def Let_def preview_options_mode brief_config has_webcodecs)
  show ?thesis
    using one progress_bounded_and_monotone_per_renderer
      [of browserWithBoth undisturbedRun undisturbedRun "[briefScene]" ratio_16_9 previewOptions]
    by blast
qed

text \<open>
  The claim as stated fails when \<open>encoder.configure\<close> throws after the preload: the
  first run has reported 0, 0.2, 0.2, and the second starts again with 0.
\<close>

theorem progress_restarts_on_fallback:
  "progress (generateWebMFromScenes browserWithBoth encoderRejectsConfiguration undisturbedRun
               [briefScene] ratio_16_9 previewOptions)
     = [0, 1 / 5, 1 / 5,
        0, 1 / 5, 1 / 5, 199 / 600, 139 / 300, 119 / 200, 109 / 150, 103 / 120, 99 / 100, 1] \<and>
   \<not> sorted (progress (generateWebMFromScenes browserWithBoth encoderRejectsConfiguration undisturbedRun
                        [briefScene] ratio_16_9 previewOptions))"
  by (simp add: generateWebMFromScenes_def Let_def preview_options_mode brief_config has_webcodecs
      rejected_first_run afterFirstRun_def second_run_undisturbed)

end
